theory Spec2Isabelle
  imports Complex_Main "HOL-Library.AList"
begin

section \<open>Python values, dictionaries and exceptions\<close>

text \<open>
  A Python float is either a number or the not-a-number value; only that distinction and
  the comparison with the 5 percent level are used by the code.
\<close>

datatype pyfloat = Float rat | NaN

fun isnan :: "pyfloat \<Rightarrow> bool" where
  "isnan NaN = True"
| "isnan (Float r) = False"

datatype pyval =
    PNone
  | PBool bool
  | PInt int
  | PFloat pyfloat
  | PStr string
  | PList "pyval list"
  | PDict "(string \<times> pyval) list"

text \<open>
  A \<open>dict\<close> keeps its keys in insertion order; \<open>d[k] = v\<close> is \<open>AList.update k v d\<close>
  (replace in place, or append), \<open>d.get(k)\<close> is \<open>map_of d k\<close>.
\<close>

type_synonym pydict = "(string \<times> pyval) list"

datatype exn =
    ValueError string
  | RuntimeError string
  | KeyError string
  | TypeError string
  | OtherError string

text \<open>\<open>str(e)\<close>: the message; a \<open>KeyError\<close> prints the quoted key.\<close>

fun str_exn :: "exn \<Rightarrow> string" where
  "str_exn (ValueError m) = m"
| "str_exn (RuntimeError m) = m"
| "str_exn (KeyError k) = [CHR 0x27] @ k @ [CHR 0x27]"
| "str_exn (TypeError m) = m"
| "str_exn (OtherError m) = m"

definition ebind :: "exn + 'a \<Rightarrow> ('a \<Rightarrow> exn + 'b) \<Rightarrow> exn + 'b" where
  "ebind m f = (case m of Inl e \<Rightarrow> Inl e | Inr x \<Rightarrow> f x)"

text \<open>\<open>d[k]\<close>: the value, or \<open>KeyError\<close>.\<close>

definition getitem :: "(string \<times> 'v) list \<Rightarrow> string \<Rightarrow> exn + 'v" where
  "getitem d k = (case map_of d k of None \<Rightarrow> Inl (KeyError k) | Some v \<Rightarrow> Inr v)"

fun truthy :: "pyval \<Rightarrow> bool" where
  "truthy PNone = False"
| "truthy (PBool b) = b"
| "truthy (PInt i) = (i \<noteq> 0)"
| "truthy (PFloat (Float r)) = (r \<noteq> 0)"
| "truthy (PFloat NaN) = True"
| "truthy (PStr s) = (s \<noteq> [])"
| "truthy (PList xs) = (xs \<noteq> [])"
| "truthy (PDict d) = (d \<noteq> [])"

section \<open>External collaborators\<close>

text \<open>
  \<open>statsmodels.tsa.stattools.adfuller\<close> is a black box: it is given the series, the
  regression kind, \<open>maxlag\<close> and \<open>autolag\<close>, and either raises or returns the tuple of
  which the code reads the components 0, 1, 2 and 4.
\<close>

record adf_out =
  adfstat :: pyfloat
  pvalue :: pyfloat
  usedlag :: int
  critvalues :: "(string \<times> pyfloat) list"

type_synonym adf_call = "pyfloat list \<times> string \<times> int \<times> string"

text \<open>
  A numpy array as the worker meets it: numeric, or of a dtype on which \<open>np.isnan\<close>
  raises (a column of strings); only its length is kept in that case.
\<close>

datatype nparray = Numeric "pyfloat list" | NonNumeric nat

text \<open>
  What the worker uses of a pandas data frame: the column names, the values of a column,
  and the per-minute event counts \<open>resample('1min').size().values\<close> after the named
  column has been parsed as timestamps and made the index (which can raise).
\<close>

record dataframe =
  columns :: "string list"
  column_values :: "string \<Rightarrow> nparray"
  minute_counts :: "string \<Rightarrow> exn + nparray"

text \<open>
  The collaborators the code calls, taken as parameters: \<open>adfuller\<close>; the two
  conversions of an f-string, \<open>{v:.6f}\<close> (which raises on a value that is no number)
  and \<open>{v}\<close>; \<open>os.path.exists\<close>, \<open>pd.read_csv\<close>, \<open>open(...).readlines()\<close>;
  \<open>str.strip\<close>, \<open>str.split\<close> (which raises on an empty separator) and \<open>float\<close> of a
  string (\<open>None\<close> for \<open>ValueError\<close>); the numpy reductions; \<open>isoformat\<close> of a clock
  reading and \<open>traceback.format_exc\<close>.
\<close>

record env =
  adfuller :: "pyfloat list \<Rightarrow> string \<Rightarrow> int \<Rightarrow> string \<Rightarrow> exn + adf_out"
  format_6f :: "pyval \<Rightarrow> exn + string"
  format_str :: "pyval \<Rightarrow> string"
  path_exists :: "string \<Rightarrow> bool"
  read_csv :: "string \<Rightarrow> exn + dataframe"
  read_lines :: "string \<Rightarrow> exn + string list"
  str_strip :: "string \<Rightarrow> string"
  str_split :: "string \<Rightarrow> string \<Rightarrow> exn + string list"
  py_float :: "string \<Rightarrow> pyfloat option"
  np_min :: "pyfloat list \<Rightarrow> pyfloat"
  np_max :: "pyfloat list \<Rightarrow> pyfloat"
  np_mean :: "pyfloat list \<Rightarrow> pyfloat"
  np_std :: "pyfloat list \<Rightarrow> pyfloat"
  isoformat :: "nat \<Rightarrow> string"
  format_exc :: "exn \<Rightarrow> string"

text \<open>
  The message literals of the source are Chinese; they are given here by ASCII
  renderings of the same sentences.
\<close>

definition MSG_MIN_LENGTH :: string where
  "MSG_MIN_LENGTH = ''data length must be at least 10 observations''"

definition MSG_MIN_VALID_LENGTH :: string where
  "MSG_MIN_VALID_LENGTH = ''valid data length must be at least 10 observations''"

definition MSG_REGRESSION :: string where
  "MSG_REGRESSION = ''regression type must be one of n, c, ct''"

definition MSG_LAGS_METHOD :: string where
  "MSG_LAGS_METHOD = ''lag selection method must be one of aic, bic, t-stat''"

definition MSG_NEGATIVE_LAGS :: string where
  "MSG_NEGATIVE_LAGS = ''maximum lag must be non-negative''"

definition MSG_ADF_FAILED :: string where
  "MSG_ADF_FAILED = ''ADF test failed: ''"

definition MSG_EMPTY_DICT :: string where
  "MSG_EMPTY_DICT = ''data dictionary must not be empty''"

definition MSG_ONE_FILE :: string where
  "MSG_ONE_FILE = ''please give exactly one of the csv and txt file paths''"

definition MSG_NO_FILE :: string where
  "MSG_NO_FILE = ''file does not exist: ''"

definition MSG_NO_TIMESTAMP_COL :: "string \<Rightarrow> string" where
  "MSG_NO_TIMESTAMP_COL c = ''timestamp column '' @ c @ '' does not exist''"

definition MSG_NO_VALUE_COL :: "string \<Rightarrow> string" where
  "MSG_NO_VALUE_COL c = ''value column '' @ c @ '' does not exist''"

section \<open>adf\_core.py: ADFTester\<close>

definition regression_types :: "(string \<times> string) list" where
  "regression_types =
     [(''n'', ''no constant''), (''c'', ''constant''), (''ct'', ''constant and trend'')]"

definition lags_methods :: "(string \<times> string) list" where
  "lags_methods =
     [(''aic'', ''Akaike information criterion''),
      (''bic'', ''Bayesian information criterion''),
      (''t-stat'', ''t statistic'')]"

fun lt_005 :: "pyfloat \<Rightarrow> bool" where
  "lt_005 (Float r) = (r < 5 / 100)"
| "lt_005 NaN = False"

text \<open>The body of the \<open>try\<close> of \<open>test_stationarity\<close> after \<open>adfuller\<close> has returned.\<close>

definition result_dict ::
  "adf_out \<Rightarrow> pyfloat list \<Rightarrow> string \<Rightarrow> int \<Rightarrow> string \<Rightarrow> exn + pydict" where
  "result_dict r data regression max_lags lags_method =
     ebind (getitem (critvalues r) ''1%'') (\<lambda>c1.
     ebind (getitem (critvalues r) ''5%'') (\<lambda>c5.
     ebind (getitem (critvalues r) ''10%'') (\<lambda>c10.
     ebind (getitem regression_types regression) (\<lambda>rd.
     ebind (getitem lags_methods lags_method) (\<lambda>ld.
       Inr [(''statistic'', PFloat (adfstat r)),
            (''p_value'', PFloat (pvalue r)),
            (''critical_values'',
               PDict [(''1%'', PFloat c1), (''5%'', PFloat c5), (''10%'', PFloat c10)]),
            (''is_stationary'', PBool (lt_005 (pvalue r))),
            (''lags_used'', PInt (usedlag r)),
            (''regression_type'', PStr regression),
            (''regression_description'', PStr rd),
            (''lags_method'', PStr lags_method),
            (''lags_method_description'', PStr ld),
            (''data_length'', PInt (int (length data))),
            (''max_lags'', PInt max_lags)])))))"

text \<open>
  \<open>test_stationarity\<close> returns the calls it made to \<open>adfuller\<close> (none or one) next to
  its outcome: \<open>Inl\<close> the exception raised, \<open>Inr\<close> the result dictionary.
\<close>

definition test_stationarity ::
  "env \<Rightarrow> pyfloat list \<Rightarrow> string \<Rightarrow> int \<Rightarrow> string \<Rightarrow> adf_call list \<times> (exn + pydict)" where
  "test_stationarity E data0 regression max_lags0 lags_method =
     (let data = filter (\<lambda>x. \<not> isnan x) data0 in
      if length data < 10 then ([], Inl (ValueError MSG_MIN_LENGTH))
      else if map_of regression_types regression = None
        then ([], Inl (ValueError MSG_REGRESSION))
      else if map_of lags_methods lags_method = None
        then ([], Inl (ValueError MSG_LAGS_METHOD))
      else if max_lags0 < 0 then ([], Inl (ValueError MSG_NEGATIVE_LAGS))
      else
        let max_lags = min max_lags0 (int (length data) div 2 - 1) in
        ([(data, regression, max_lags, lags_method)],
         case ebind (adfuller E data regression max_lags lags_method)
                (\<lambda>r. result_dict r data regression max_lags lags_method) of
           Inl e \<Rightarrow> Inl (RuntimeError (MSG_ADF_FAILED @ str_exn e))
         | Inr d \<Rightarrow> Inr d))"

text \<open>
  \<open>get_interpretation\<close>: four subscripts of the result, then the f-string, whose
  fields are evaluated from left to right; each subscript and each numeric conversion
  can raise.
\<close>

fun item_of :: "pyval \<Rightarrow> string \<Rightarrow> exn + pyval" where
  "item_of (PDict d) k = getitem d k"
| "item_of v k = Inl (TypeError ''object is not subscriptable by a string'')"

fun py_lt_005 :: "pyval \<Rightarrow> exn + bool" where
  "py_lt_005 (PFloat x) = Inr (lt_005 x)"
| "py_lt_005 (PInt i) = Inr (i \<le> 0)"
| "py_lt_005 (PBool b) = Inr (\<not> b)"
| "py_lt_005 v = Inl (TypeError ''< not supported between these types'')"

definition get_interpretation :: "env \<Rightarrow> pydict \<Rightarrow> exn + string" where
  "get_interpretation E result =
     ebind (getitem result ''statistic'') (\<lambda>statistic.
     ebind (getitem result ''p_value'') (\<lambda>p_value.
     ebind (getitem result ''is_stationary'') (\<lambda>is_stationary.
     ebind (getitem result ''critical_values'') (\<lambda>critical_values.
     ebind (format_6f E statistic) (\<lambda>s1.
     ebind (format_6f E p_value) (\<lambda>s2.
     ebind (ebind (item_of critical_values ''1%'') (format_6f E)) (\<lambda>s3.
     ebind (ebind (item_of critical_values ''5%'') (format_6f E)) (\<lambda>s4.
     ebind (ebind (item_of critical_values ''10%'') (format_6f E)) (\<lambda>s5.
     ebind (format_6f E p_value) (\<lambda>s6.
     ebind (py_lt_005 p_value) (\<lambda>lt.
     ebind (getitem result ''regression_description'') (\<lambda>rd.
     ebind (getitem result ''lags_method_description'') (\<lambda>ld.
     ebind (getitem result ''lags_used'') (\<lambda>lu.
     ebind (getitem result ''data_length'') (\<lambda>dl.
       Inr (concat
         [''ADF test interpretation: 1. statistic: '', s1, '' 2. p-value: '', s2,
          '' 3. critical values: 1%: '', s3, '' 5%: '', s4, '' 10%: '', s5,
          '' 4. conclusion: '',
          (if truthy is_stationary then ''the series is stationary''
           else ''the series is non-stationary''),
          '' - at the 5% level, '',
          (if truthy is_stationary then ''reject'' else ''cannot reject''),
          '' the null hypothesis (unit root) - p-value '', s6,
          (if lt then '' < '' else '' > ''), ''0.05'',
          '' 5. details: regression: '', format_str E rd,
          '' lag selection: '', format_str E ld,
          '' lags used: '', format_str E lu,
          '' data length: '', format_str E dl]))))))))))))))))"

section \<open>adf\_mcp\_server.py: the synchronous tools\<close>

text \<open>
  Each tool returns the calls made to \<open>adfuller\<close> next to the dictionary it answers
  with. The \<open>try\<close>/\<open>except Exception\<close> around each body turns a raised exception
  into the \<open>failed\<close> dictionary.
\<close>

definition adf_test ::
  "env \<Rightarrow> pyfloat list \<Rightarrow> string \<Rightarrow> int \<Rightarrow> string \<Rightarrow> adf_call list \<times> pydict" where
  "adf_test E data regression max_lags lags_method =
     (if data = [] \<or> length data < 10
        then ([], [(''status'', PStr ''failed''), (''error'', PStr MSG_MIN_LENGTH)])
      else if regression \<notin> set [''n'', ''c'', ''ct'']
        then ([], [(''status'', PStr ''failed''), (''error'', PStr MSG_REGRESSION)])
      else if lags_method \<notin> set [''aic'', ''bic'', ''t-stat'']
        then ([], [(''status'', PStr ''failed''), (''error'', PStr MSG_LAGS_METHOD)])
      else
        (case test_stationarity E data regression max_lags lags_method of
           (calls, Inr result) \<Rightarrow>
             (calls, [(''status'', PStr ''success''), (''result'', PDict result)])
         | (calls, Inl e) \<Rightarrow>
             (calls, [(''status'', PStr ''failed''), (''error'', PStr (str_exn e))])))"

text \<open>One round of the loop of \<open>adf_batch_test\<close>: the entry written for one series.\<close>

definition batch_item ::
  "env \<Rightarrow> pyfloat list \<Rightarrow> string \<Rightarrow> int \<Rightarrow> string \<Rightarrow> adf_call list \<times> pyval" where
  "batch_item E data regression max_lags lags_method =
     (if length data < 10
        then ([], PDict [(''status'', PStr ''failed''), (''error'', PStr MSG_MIN_LENGTH)])
      else
        (case test_stationarity E data regression max_lags lags_method of
           (calls, Inr result) \<Rightarrow>
             (calls, PDict [(''status'', PStr ''success''), (''result'', PDict result)])
         | (calls, Inl e) \<Rightarrow>
             (calls, PDict [(''status'', PStr ''failed''), (''error'', PStr (str_exn e))])))"

fun batch_loop ::
  "env \<Rightarrow> (string \<times> pyfloat list) list \<Rightarrow> string \<Rightarrow> int \<Rightarrow> string \<Rightarrow>
   adf_call list \<times> pydict \<Rightarrow> adf_call list \<times> pydict" where
  "batch_loop E [] regression max_lags lags_method acc = acc"
| "batch_loop E ((name, data) # rest) regression max_lags lags_method (calls, results) =
     (case batch_item E data regression max_lags lags_method of
        (cs, entry) \<Rightarrow>
          batch_loop E rest regression max_lags lags_method
            (calls @ cs, AList.update name entry results))"

definition adf_batch_test ::
  "env \<Rightarrow> (string \<times> pyfloat list) list \<Rightarrow> string \<Rightarrow> int \<Rightarrow> string \<Rightarrow>
   adf_call list \<times> pydict" where
  "adf_batch_test E data_dict regression max_lags lags_method =
     (if data_dict = []
        then ([], [(''status'', PStr ''failed''), (''error'', PStr MSG_EMPTY_DICT)])
      else
        (case batch_loop E data_dict regression max_lags lags_method ([], []) of
           (calls, results) \<Rightarrow>
             (calls, [(''status'', PStr ''success''), (''results'', PDict results)])))"

definition adf_interpret :: "env \<Rightarrow> pyfloat \<Rightarrow> pyfloat \<Rightarrow> pydict \<Rightarrow> string \<Rightarrow> pydict" where
  "adf_interpret E statistic p_value critical_values regression =
     (case get_interpretation E
             [(''statistic'', PFloat statistic),
              (''p_value'', PFloat p_value),
              (''critical_values'', PDict critical_values),
              (''regression_type'', PStr regression)] of
        Inr interpretation \<Rightarrow>
          [(''status'', PStr ''success''), (''interpretation'', PStr interpretation)]
      | Inl e \<Rightarrow> [(''status'', PStr ''failed''), (''error'', PStr (str_exn e))])"

section \<open>adf\_mcp\_server.py: the task registry\<close>

text \<open>
  The dictionaries of the registry are objects with an identity: \<open>TASKS\<close> maps a task
  id to the address of its record, \<open>heap\<close> gives the fields of each dictionary object.
  \<open>dict(d)\<close> allocates a new object with the fields of \<open>d\<close>; \<open>d.update(...)\<close> rebinds
  fields of the object \<open>d\<close> where it is. \<open>TASKS_SEM\<close> is the counter of the semaphore,
  \<open>threads\<close> the threads that run code of this module (the thread of a request to
  \<open>adf_analyze_file\<close> and every thread started by \<open>_start_background\<close>), each with the
  task id it works for and the operations it has left to do, \<open>clock\<close> the time that
  \<open>_now_iso\<close> reads.
  The functions whose names start with an underscore in the source are prefixed
  \<open>priv_\<close> here.
\<close>

type_synonym addr = nat

datatype uval = Val pyval | NowIso

record params =
  p_csv :: "string option"
  p_txt :: "string option"
  p_timestamp_col :: string
  p_value_col :: string
  p_delimiter :: string
  p_has_header :: bool
  p_regression :: string
  p_max_lags :: int
  p_lags_method :: string
  p_analysis_type :: string

text \<open>
  The atomic operations on the shared state that the endpoints and the worker perform:
  the calls of \<open>_create_task\<close>, \<open>_set_task\<close> (a keyword argument \<open>_now_iso()\<close> is
  \<open>NowIso\<close>), \<open>_get_task\<close>, \<open>_list_tasks\<close> and \<open>_start_background\<close>, entering and
  leaving \<open>with TASKS_SEM\<close>, a call of \<open>adfuller\<close> (no effect on the state), and the
  passing of time.
\<close>

datatype action =
    CreateTask string string pyval
  | SetTask string "(string \<times> uval) list"
  | GetTask string
  | ListTasks
  | StartBackground string params
  | Acquire
  | Release
  | CallAdfuller adf_call
  | Tick

record server =
  TASKS :: "(string \<times> addr) list"
  heap :: "addr \<Rightarrow> pydict option"
  next_addr :: addr
  TASKS_SEM :: nat
  threads :: "(string \<times> action list) list"
  clock :: nat

text \<open>
  \<open>MAX_CONCURRENT = int(os.getenv("ADF_MAX_CONCURRENT", "2"))\<close>, given the variable's
  value as already read (\<open>None\<close> when it is not set).
\<close>

definition MAX_CONCURRENT :: "nat option \<Rightarrow> nat" where
  "MAX_CONCURRENT getenv = (case getenv of None \<Rightarrow> 2 | Some n \<Rightarrow> n)"

definition init_server :: "nat option \<Rightarrow> server" where
  "init_server getenv =
     \<lparr>TASKS = [], heap = (\<lambda>a. None), next_addr = 0,
      TASKS_SEM = MAX_CONCURRENT getenv, threads = [], clock = 0\<rparr>"

definition priv_now_iso :: "env \<Rightarrow> server \<Rightarrow> string" where
  "priv_now_iso E S = isoformat E (clock S)"

definition alloc :: "pydict \<Rightarrow> server \<Rightarrow> addr \<times> server" where
  "alloc d S =
     (next_addr S, S\<lparr>heap := (heap S)(next_addr S \<mapsto> d), next_addr := Suc (next_addr S)\<rparr>)"

text \<open>The task id that \<open>uuid.uuid4()\<close> gives is the argument \<open>task_id\<close>.\<close>

definition priv_create_task :: "env \<Rightarrow> string \<Rightarrow> string \<Rightarrow> pyval \<Rightarrow> server \<Rightarrow> server" where
  "priv_create_task E task_id task_type ps S =
     (case alloc
             [(''id'', PStr task_id),
              (''type'', PStr task_type),
              (''params'', ps),
              (''status'', PStr ''queued''),
              (''progress'', PFloat (Float 0)),
              (''created_at'', PStr (priv_now_iso E S)),
              (''started_at'', PNone),
              (''completed_at'', PNone),
              (''result'', PNone),
              (''error'', PNone),
              (''traceback'', PNone)] S of
        (a, S') \<Rightarrow> S'\<lparr>TASKS := AList.update task_id a (TASKS S')\<rparr>)"

definition dict_update :: "pydict \<Rightarrow> pydict \<Rightarrow> pydict" where
  "dict_update d updates = foldl (\<lambda>d' (k, v). AList.update k v d') d updates"

definition priv_set_task :: "string \<Rightarrow> pydict \<Rightarrow> server \<Rightarrow> server" where
  "priv_set_task task_id updates S =
     (case map_of (TASKS S) task_id of
        None \<Rightarrow> S
      | Some a \<Rightarrow>
          (case heap S a of
             None \<Rightarrow> S
           | Some d \<Rightarrow> S\<lparr>heap := (heap S)(a \<mapsto> dict_update d updates)\<rparr>))"

text \<open>\<open>dict(TASKS.get(task_id, {}))\<close>: a new object, a copy of the record or empty.\<close>

definition priv_get_task :: "string \<Rightarrow> server \<Rightarrow> addr \<times> server" where
  "priv_get_task task_id S =
     (case map_of (TASKS S) task_id of
        None \<Rightarrow> alloc [] S
      | Some a \<Rightarrow> (case heap S a of None \<Rightarrow> alloc [] S | Some d \<Rightarrow> alloc d S))"

fun copy_all :: "addr list \<Rightarrow> server \<Rightarrow> addr list \<times> server" where
  "copy_all [] S = ([], S)"
| "copy_all (a # as) S =
     (case alloc (case heap S a of None \<Rightarrow> [] | Some d \<Rightarrow> d) S of
        (b, S') \<Rightarrow> (case copy_all as S' of (bs, S'') \<Rightarrow> (b # bs, S'')))"

definition priv_list_tasks :: "server \<Rightarrow> addr list \<times> server" where
  "priv_list_tasks S = copy_all (map snd (TASKS S)) S"

definition priv_start_background :: "string \<times> action list \<Rightarrow> server \<Rightarrow> server" where
  "priv_start_background t S = S\<lparr>threads := threads S @ [t]\<rparr>"

definition list_tasks :: "server \<Rightarrow> (nat \<times> addr list) \<times> server" where
  "list_tasks S = (case priv_list_tasks S of (tasks, S') \<Rightarrow> ((length tasks, tasks), S'))"

definition get_task :: "string \<Rightarrow> server \<Rightarrow> addr \<times> server" where
  "get_task task_id S = priv_get_task task_id S"

text \<open>Reading a field of the record of a task, as a poller sees it.\<close>

definition task_field :: "server \<Rightarrow> string \<Rightarrow> string \<Rightarrow> pyval option" where
  "task_field S task_id k =
     (case map_of (TASKS S) task_id of
        None \<Rightarrow> None
      | Some a \<Rightarrow> (case heap S a of None \<Rightarrow> None | Some d \<Rightarrow> map_of d k))"

section \<open>adf\_mcp\_server.py: the file analysis\<close>

text \<open>
  A function that runs in a thread is given by the operations it performs, in program
  order, and by how it ends: it goes on (\<open>Next\<close>), \<open>return\<close>s, or raises.
\<close>

datatype 'a flow = Next 'a | Return | Raise exn

definition wbind ::
  "action list \<times> 'a flow \<Rightarrow> ('a \<Rightarrow> action list \<times> 'b flow) \<Rightarrow> action list \<times> 'b flow" where
  "wbind m f =
     (case m of
        (as, Next x) \<Rightarrow> (case f x of (bs, r) \<Rightarrow> (as @ bs, r))
      | (as, Return) \<Rightarrow> (as, Return)
      | (as, Raise e) \<Rightarrow> (as, Raise e))"

definition wthen ::
  "action list \<times> unit flow \<Rightarrow> action list \<times> 'b flow \<Rightarrow> action list \<times> 'b flow" where
  "wthen m k = wbind m (\<lambda>u. k)"

definition emit :: "action \<Rightarrow> action list \<times> unit flow" where
  "emit a = ([a], Next ())"

definition lift :: "exn + 'a \<Rightarrow> action list \<times> 'a flow" where
  "lift r = (case r of Inl e \<Rightarrow> ([], Raise e) | Inr x \<Rightarrow> ([], Next x))"

text \<open>\<open>_set_task(task_id, status="failed", error=msg, completed_at=_now_iso()); return\<close>\<close>

definition fail_and_return :: "string \<Rightarrow> string \<Rightarrow> action list \<times> 'a flow" where
  "fail_and_return task_id msg =
     ([SetTask task_id
         [(''status'', Val (PStr ''failed'')), (''error'', Val (PStr msg)),
          (''completed_at'', NowIso)]], Return)"

fun opt_truthy :: "string option \<Rightarrow> bool" where
  "opt_truthy None = False"
| "opt_truthy (Some s) = (s \<noteq> [])"

fun opt_val :: "string option \<Rightarrow> pyval" where
  "opt_val None = PNone"
| "opt_val (Some s) = PStr s"

definition params_dict :: "params \<Rightarrow> pyval" where
  "params_dict p =
     PDict [(''csv'', opt_val (p_csv p)),
            (''txt'', opt_val (p_txt p)),
            (''timestamp_col'', PStr (p_timestamp_col p)),
            (''value_col'', PStr (p_value_col p)),
            (''delimiter'', PStr (p_delimiter p)),
            (''has_header'', PBool (p_has_header p)),
            (''regression'', PStr (p_regression p)),
            (''max_lags'', PInt (p_max_lags p)),
            (''lags_method'', PStr (p_lags_method p)),
            (''analysis_type'', PStr (p_analysis_type p))]"

fun np_len :: "nparray \<Rightarrow> nat" where
  "np_len (Numeric xs) = length xs"
| "np_len (NonNumeric n) = n"

text \<open>\<open>time_series[~np.isnan(time_series)]\<close>\<close>

fun drop_nan :: "nparray \<Rightarrow> exn + pyfloat list" where
  "drop_nan (Numeric xs) = Inr (filter (\<lambda>x. \<not> isnan x) xs)"
| "drop_nan (NonNumeric n) = Inl (TypeError ''ufunc isnan not supported for the input types'')"

text \<open>The csv branch of the worker, from \<open>pd.read_csv\<close> to the series.\<close>

definition load_csv ::
  "env \<Rightarrow> string \<Rightarrow> params \<Rightarrow> string \<Rightarrow> action list \<times> nparray flow" where
  "load_csv E task_id p file_path =
     wbind (lift (read_csv E file_path)) (\<lambda>df.
       if p_timestamp_col p \<notin> set (columns df)
         then fail_and_return task_id (MSG_NO_TIMESTAMP_COL (p_timestamp_col p))
       else if p_value_col p \<notin> set (columns df)
         then fail_and_return task_id (MSG_NO_VALUE_COL (p_value_col p))
       else if p_analysis_type p = ''log_analysis''
         then lift (minute_counts df (p_timestamp_col p))
       else ([], Next (column_values df (p_value_col p))))"

text \<open>
  The txt branch: every line is stripped and split, and every piece that \<open>float\<close>
  accepts is appended.
\<close>

fun parse_lines :: "env \<Rightarrow> string \<Rightarrow> string list \<Rightarrow> pyfloat list \<Rightarrow> exn + pyfloat list" where
  "parse_lines E delimiter [] data = Inr data"
| "parse_lines E delimiter (line # lines) data =
     ebind (str_split E (str_strip E line) delimiter) (\<lambda>values.
       parse_lines E delimiter lines (data @ List.map_filter (py_float E) values))"

definition load_txt :: "env \<Rightarrow> params \<Rightarrow> string \<Rightarrow> action list \<times> nparray flow" where
  "load_txt E p file_path =
     lift (ebind (read_lines E file_path) (\<lambda>lines.
           ebind (parse_lines E (p_delimiter p)
                    (if p_has_header p then drop 1 lines else lines) []) (\<lambda>data.
           Inr (Numeric data))))"

definition priv_generate_recommendations :: "pydict \<Rightarrow> nat \<Rightarrow> exn + pyval list" where
  "priv_generate_recommendations adf_result data_length =
     ebind (getitem adf_result ''is_stationary'') (\<lambda>is_stationary.
       Inr ((if truthy is_stationary
             then [PStr ''the series is stationary, suitable for ARIMA modelling'',
                   PStr ''short-term forecasting can be considered'']
             else [PStr ''the series is non-stationary, differencing is advised'',
                   PStr ''an ARIMA model can be considered''])
            @ (if data_length < 100
               then [PStr ''few data points, collect more data for a reliable analysis'']
               else [])))"

text \<open>The dictionary \<open>result\<close> that the worker builds after the test.\<close>

definition build_result ::
  "env \<Rightarrow> string \<Rightarrow> string \<Rightarrow> string \<Rightarrow> pyfloat list \<Rightarrow> pydict \<Rightarrow> exn + pydict" where
  "build_result E analysis_type file_path file_type time_series adf_result =
     ebind (get_interpretation E adf_result) (\<lambda>interpretation.
     ebind (priv_generate_recommendations adf_result (length time_series)) (\<lambda>recommendations.
       Inr [(''status'', PStr ''success''),
            (''analysis_type'', PStr analysis_type),
            (''file_path'', PStr file_path),
            (''file_type'', PStr file_type),
            (''data_summary'',
               PDict [(''time_series_length'', PInt (int (length time_series))),
                      (''value_range'',
                         PDict [(''min'', PFloat (np_min E time_series)),
                                (''max'', PFloat (np_max E time_series)),
                                (''mean'', PFloat (np_mean E time_series)),
                                (''std'', PFloat (np_std E time_series))])]),
            (''adf_result'', PDict adf_result),
            (''interpretation'', PStr interpretation),
            (''recommendations'', PList recommendations)]))"

definition call_test_stationarity ::
  "env \<Rightarrow> pyfloat list \<Rightarrow> string \<Rightarrow> int \<Rightarrow> string \<Rightarrow> action list \<times> pydict flow" where
  "call_test_stationarity E data regression max_lags lags_method =
     (case test_stationarity E data regression max_lags lags_method of
        (calls, Inr result) \<Rightarrow> (map CallAdfuller calls, Next result)
      | (calls, Inl e) \<Rightarrow> (map CallAdfuller calls, Raise e))"

text \<open>
  The block under \<open>with TASKS_SEM\<close>, in three parts: up to the choice of the file,
  the reading of the series (\<open>worker_load\<close>), and everything from the progress mark 0.5
  on (\<open>worker_analyse\<close>). When the worker was started by \<open>adf_analyze_file\<close> exactly one
  of the two paths is a non-empty string; a path \<open>None\<close> makes the reading function
  raise.
\<close>

definition with_path ::
  "string option \<Rightarrow> (string \<Rightarrow> action list \<times> 'a flow) \<Rightarrow> action list \<times> 'a flow" where
  "with_path file_path f =
     (case file_path of
        None \<Rightarrow> ([], Raise (TypeError ''expected a path, not NoneType''))
      | Some path \<Rightarrow> f path)"

definition worker_load ::
  "env \<Rightarrow> string \<Rightarrow> params \<Rightarrow> string \<Rightarrow> string \<Rightarrow> action list \<times> nparray flow" where
  "worker_load E task_id p file_type path =
     (if file_type = ''csv'' then load_csv E task_id p path else load_txt E p path)"

definition worker_analyse ::
  "env \<Rightarrow> string \<Rightarrow> params \<Rightarrow> string \<Rightarrow> string \<Rightarrow> string \<Rightarrow> nparray \<Rightarrow>
   action list \<times> unit flow" where
  "worker_analyse E task_id p analysis_type path file_type time_series0 =
     wthen (emit (SetTask task_id [(''progress'', Val (PFloat (Float (5 / 10))))]))
     (if np_len time_series0 < 10 then fail_and_return task_id MSG_MIN_LENGTH
      else
      wbind (lift (drop_nan time_series0)) (\<lambda>time_series.
      if length time_series < 10 then fail_and_return task_id MSG_MIN_VALID_LENGTH
      else
      wthen (emit (SetTask task_id [(''progress'', Val (PFloat (Float (7 / 10))))]))
      (wbind (call_test_stationarity E time_series
                (p_regression p) (p_max_lags p) (p_lags_method p)) (\<lambda>adf_result.
       wthen (emit (SetTask task_id [(''progress'', Val (PFloat (Float (9 / 10))))]))
       (wbind (lift (build_result E analysis_type path file_type time_series adf_result))
          (\<lambda>result.
        emit (SetTask task_id
                [(''status'', Val (PStr ''succeeded'')),
                 (''progress'', Val (PFloat (Float 1))),
                 (''completed_at'', NowIso),
                 (''result'', Val (PDict result))])))))))"

definition worker_body :: "env \<Rightarrow> string \<Rightarrow> params \<Rightarrow> action list \<times> unit flow" where
  "worker_body E task_id p =
     wthen (emit (SetTask task_id
               [(''status'', Val (PStr ''running'')), (''started_at'', NowIso),
                (''progress'', Val (PFloat (Float (1 / 10))))]))
     (let csv_path = p_csv p;
          txt_path = p_txt p;
          analysis_type = p_analysis_type p;
          file_path = (if opt_truthy csv_path then csv_path else txt_path);
          file_type = (if opt_truthy csv_path then ''csv'' else ''txt'')
      in
      wthen (emit (SetTask task_id [(''progress'', Val (PFloat (Float (2 / 10))))]))
      (with_path file_path (\<lambda>path.
       wbind (worker_load E task_id p file_type path)
         (worker_analyse E task_id p analysis_type path file_type))))"

text \<open>
  \<open>_analyze_file_worker\<close>: the semaphore is taken, the block runs, the semaphore is
  given back however the block ends, and then, when the block raised, the handler of
  the enclosing \<open>try\<close> marks the task failed.
\<close>

definition priv_analyze_file_worker :: "env \<Rightarrow> string \<Rightarrow> params \<Rightarrow> action list" where
  "priv_analyze_file_worker E task_id p =
     (case worker_body E task_id p of
        (body, ending) \<Rightarrow>
          [Acquire] @ body @ [Release] @
          (case ending of
             Raise ex \<Rightarrow>
               [SetTask task_id
                  [(''status'', Val (PStr ''failed'')), (''completed_at'', NowIso),
                   (''error'', Val (PStr (str_exn ex))),
                   (''traceback'', Val (PStr (format_exc E ex)))]]
           | Next u \<Rightarrow> []
           | Return \<Rightarrow> []))"

text \<open>
  \<open>csv or txt\<close>, where it is evaluated: one of the two is a non-empty string, and the
  value is that string.
\<close>

definition or_path :: "string option \<Rightarrow> string option \<Rightarrow> string" where
  "or_path csv txt =
     (case (if opt_truthy csv then csv else txt) of None \<Rightarrow> [] | Some path \<Rightarrow> path)"

text \<open>\<open>adf_analyze_file\<close>: the dictionary it returns and the operations it performs.\<close>

definition adf_analyze_file ::
  "env \<Rightarrow> string \<Rightarrow> string option \<Rightarrow> string option \<Rightarrow> string \<Rightarrow> string \<Rightarrow> string \<Rightarrow> bool \<Rightarrow>
   string \<Rightarrow> int \<Rightarrow> string \<Rightarrow> string \<Rightarrow> pydict \<times> action list" where
  "adf_analyze_file E task_id csv txt timestamp_col value_col delimiter has_header
     regression max_lags lags_method analysis_type =
     (let p = \<lparr>p_csv = csv, p_txt = txt, p_timestamp_col = timestamp_col,
               p_value_col = value_col, p_delimiter = delimiter,
               p_has_header = has_header, p_regression = regression,
               p_max_lags = max_lags, p_lags_method = lags_method,
               p_analysis_type = analysis_type\<rparr>
      in
      if (opt_truthy csv \<and> opt_truthy txt) \<or> (\<not> opt_truthy csv \<and> \<not> opt_truthy txt) then
        ([(''status'', PStr ''failed''), (''task_id'', PStr task_id),
          (''type'', PStr ''adf_analyze_file''), (''error'', PStr MSG_ONE_FILE)],
         [CreateTask task_id ''adf_analyze_file'' (params_dict p),
          SetTask task_id
            [(''status'', Val (PStr ''failed'')), (''error'', Val (PStr MSG_ONE_FILE)),
             (''completed_at'', NowIso)]])
      else
        let file_path = or_path csv txt in
        if \<not> path_exists E file_path then
          ([(''status'', PStr ''failed''), (''task_id'', PStr task_id),
            (''type'', PStr ''adf_analyze_file''),
            (''error'', PStr (MSG_NO_FILE @ file_path))],
           [CreateTask task_id ''adf_analyze_file'' (params_dict p),
            SetTask task_id
              [(''status'', Val (PStr ''failed'')),
               (''error'', Val (PStr (MSG_NO_FILE @ file_path))),
               (''completed_at'', NowIso)]])
        else
          ([(''status'', PStr ''queued''), (''task_id'', PStr task_id),
            (''type'', PStr ''adf_analyze_file'')],
           [CreateTask task_id ''adf_analyze_file'' (params_dict p),
            StartBackground task_id p]))"

section \<open>Execution\<close>

fun resolve :: "env \<Rightarrow> server \<Rightarrow> string \<times> uval \<Rightarrow> string \<times> pyval" where
  "resolve E S (k, Val v) = (k, v)"
| "resolve E S (k, NowIso) = (k, PStr (priv_now_iso E S))"

text \<open>
  One operation on the state; \<open>None\<close> when it cannot be done now: \<open>Acquire\<close> blocks
  while the counter of the semaphore is zero.
\<close>

fun do_action :: "env \<Rightarrow> action \<Rightarrow> server \<Rightarrow> server option" where
  "do_action E (CreateTask task_id task_type ps) S = Some (priv_create_task E task_id task_type ps S)"
| "do_action E (SetTask task_id updates) S =
     Some (priv_set_task task_id (map (resolve E S) updates) S)"
| "do_action E (GetTask task_id) S = Some (snd (priv_get_task task_id S))"
| "do_action E ListTasks S = Some (snd (priv_list_tasks S))"
| "do_action E (StartBackground task_id p) S =
     Some (priv_start_background (task_id, priv_analyze_file_worker E task_id p) S)"
| "do_action E Acquire S =
     (if TASKS_SEM S = 0 then None else Some (S\<lparr>TASKS_SEM := TASKS_SEM S - 1\<rparr>))"
| "do_action E Release S = Some (S\<lparr>TASKS_SEM := TASKS_SEM S + 1\<rparr>)"
| "do_action E (CallAdfuller c) S = Some S"
| "do_action E Tick S = Some (S\<lparr>clock := clock S + 1\<rparr>)"

text \<open>A function run to its end by one thread, nothing else running in between.\<close>

fun do_actions :: "env \<Rightarrow> action list \<Rightarrow> server \<Rightarrow> server option" where
  "do_actions E [] S = Some S"
| "do_actions E (a # as) S =
     (case do_action E a S of None \<Rightarrow> None | Some S' \<Rightarrow> do_actions E as S')"

text \<open>
  Threads interleave at the operations. A request to \<open>adf_analyze_file\<close> arrives
  (\<open>Call\<close>, with the task id that \<open>uuid4\<close> will give it and its arguments) and gets a
  thread; the scheduler lets thread number \<open>i\<close> do its next operation (\<open>Run i\<close>;
  nothing happens when it is blocked or has ended); any other code does one operation
  on the state (\<open>Req a\<close>).
\<close>

datatype event = Call string params | Run nat | Req action

definition analyze_file_thread :: "env \<Rightarrow> string \<Rightarrow> params \<Rightarrow> string \<times> action list" where
  "analyze_file_thread E task_id p =
     (task_id,
      snd (adf_analyze_file E task_id (p_csv p) (p_txt p) (p_timestamp_col p) (p_value_col p)
             (p_delimiter p) (p_has_header p) (p_regression p) (p_max_lags p)
             (p_lags_method p) (p_analysis_type p)))"

fun step :: "env \<Rightarrow> event \<Rightarrow> server \<Rightarrow> server" where
  "step E (Call task_id p) S = S\<lparr>threads := threads S @ [analyze_file_thread E task_id p]\<rparr>"
| "step E (Req a) S = (case do_action E a S of None \<Rightarrow> S | Some S' \<Rightarrow> S')"
| "step E (Run i) S =
     (if i < length (threads S) then
        (case threads S ! i of
           (task_id, []) \<Rightarrow> S
         | (task_id, a # as) \<Rightarrow>
             (case do_action E a S of
                None \<Rightarrow> S
              | Some S' \<Rightarrow> S'\<lparr>threads := (threads S')[i := (task_id, as)]\<rparr>))
      else S)"

definition exec :: "env \<Rightarrow> event list \<Rightarrow> server \<Rightarrow> server" where
  "exec E evs S = foldl (\<lambda>S' ev. step E ev S') S evs"

definition status_of :: "server \<Rightarrow> string \<Rightarrow> pyval option" where
  "status_of S task_id = task_field S task_id ''status''"

definition running_tasks :: "server \<Rightarrow> string list" where
  "running_tasks S =
     filter (\<lambda>task_id. status_of S task_id = Some (PStr ''running'')) (map fst (TASKS S))"

section \<open>Observations on operations and answers\<close>

text \<open>The calls of \<open>adfuller\<close> among the operations of a thread.\<close>

fun call_of :: "action \<Rightarrow> adf_call option" where
  "call_of (CallAdfuller c) = Some c"
| "call_of a = None"


text \<open>The keyword arguments of the calls of \<open>_set_task\<close> that set the status \<open>succeeded\<close>.\<close>

fun succeeded_update :: "action \<Rightarrow> (string \<times> uval) list option" where
  "succeeded_update (SetTask task_id updates) =
     (if map_of updates ''status'' = Some (Val (PStr ''succeeded'')) then Some updates else None)"
| "succeeded_update a = None"



definition failed_update :: "string \<Rightarrow> (string \<times> uval) list" where
  "failed_update msg =
     [(''status'', Val (PStr ''failed'')), (''error'', Val (PStr msg)),
      (''completed_at'', NowIso)]"


fun is_start :: "action \<Rightarrow> bool" where
  "is_start (StartBackground task_id p) = True"
| "is_start a = False"

text \<open>
  The shape of the answer of a synchronous tool: the key \<open>status\<close> first, with
  \<open>success\<close> and the payload under its key, or with \<open>failed\<close> and a string under
  \<open>error\<close>.
\<close>

definition is_outcome :: "string \<Rightarrow> pydict \<Rightarrow> bool" where
  "is_outcome payload d =
     (case d of
        [(k1, PStr s), (k2, v)] \<Rightarrow>
          k1 = ''status'' \<and>
          (s = ''success'' \<and> k2 = payload \<or>
           s = ''failed'' \<and> k2 = ''error'' \<and> (case v of PStr m \<Rightarrow> True | _ \<Rightarrow> False))
      | _ \<Rightarrow> False)"

section \<open>A concrete environment\<close>

text \<open>
  One file \<open>series.txt\<close> of twelve lines, each the number 1, and an \<open>adfuller\<close> that
  returns a result for every series.
\<close>

definition demo_env :: env where
  "demo_env =
     \<lparr>adfuller = (\<lambda>data regression maxlag autolag.
        Inr \<lparr>adfstat = Float (- 4), pvalue = Float (1 / 100), usedlag = 1,
             critvalues = [(''1%'', Float (- 7 / 2)), (''5%'', Float (- 29 / 10)),
                           (''10%'', Float (- 26 / 10))]\<rparr>),
      format_6f = (\<lambda>v. case v of PFloat x \<Rightarrow> Inr ''x'' | PInt i \<Rightarrow> Inr ''i''
                        | _ \<Rightarrow> Inl (TypeError ''unsupported format string'')),
      format_str = (\<lambda>v. ''v''),
      path_exists = (\<lambda>f. f = ''series.txt''),
      read_csv = (\<lambda>f. Inl (OtherError ''no such file'')),
      read_lines = (\<lambda>f. if f = ''series.txt'' then Inr (replicate 12 ''1'')
                         else Inl (OtherError ''no such file'')),
      str_strip = (\<lambda>s. s),
      str_split = (\<lambda>s d. if d = [] then Inl (ValueError ''empty separator'') else Inr [s]),
      py_float = (\<lambda>s. if s = ''1'' then Some (Float 1) else None),
      np_min = (\<lambda>xs. Float 1),
      np_max = (\<lambda>xs. Float 1),
      np_mean = (\<lambda>xs. Float 1),
      np_std = (\<lambda>xs. Float 0),
      isoformat = (\<lambda>n. replicate n CHR ''t''),
      format_exc = (\<lambda>e. ''Traceback: '' @ str_exn e)\<rparr>"

definition demo_params :: "int \<Rightarrow> params" where
  "demo_params ml =
     \<lparr>p_csv = None, p_txt = Some ''series.txt'', p_timestamp_col = ''Date'',
      p_value_col = ''EventId'', p_delimiter = '' '', p_has_header = False,
      p_regression = ''c'', p_max_lags = ml, p_lags_method = ''aic'',
      p_analysis_type = ''log_analysis''\<rparr>"

definition demo_batch :: "(string \<times> pyfloat list) list" where
  "demo_batch = [(''a'', replicate 9 (Float 1)), (''b'', replicate 12 (Float 1))]"







definition demo_gappy :: "pyfloat list" where
  "demo_gappy = replicate 9 (Float 1) @ [NaN, NaN]"

text \<open>
  Two requests with the semaphore at one slot. Job \<open>A\<close> asks for the maximum lag -1,
  which \<open>test_stationarity\<close> refuses by raising; job \<open>B\<close> is in order. The threads 0
  and 1 serve the requests, the threads 2 and 3 are the workers of \<open>A\<close> and \<open>B\<close>.
  The worker of \<open>A\<close> runs until it has left the \<open>with\<close> block, then the worker of \<open>B\<close>
  enters it and marks its task.
\<close>

definition race :: "event list" where
  "race =
     [Call ''A'' (demo_params (- 1)), Call ''B'' (demo_params 10),
      Run 0, Run 0, Run 1, Run 1,
      Run 2, Run 2, Run 2, Run 2, Run 2, Run 2,
      Run 3, Run 3]"

text \<open>A request for job \<open>A\<close> up to the start of its worker, and the run of that worker.\<close>

definition history_demo :: "event list" where
  "history_demo = [Call ''A'' (demo_params (- 1)), Run 0, Run 0]"

definition later_demo :: "event list" where
  "later_demo = [Run 1, Run 1, Run 1, Run 1, Run 1, Run 1, Run 1]"

section \<open>Invariants of the object store\<close>

text \<open>
  Every record of \<open>TASKS\<close> lies below the allocation mark; an address is \<open>kept\<close> when
  it is allocated and is not the address of a record.
\<close>

definition addrs_ok :: "server \<Rightarrow> bool" where
  "addrs_ok S = (\<forall>t a. (t, a) \<in> set (TASKS S) \<longrightarrow> a < next_addr S)"

definition kept :: "server \<Rightarrow> addr \<Rightarrow> bool" where
  "kept S a = (addrs_ok S \<and> a < next_addr S \<and> (\<forall>t. (t, a) \<notin> set (TASKS S)))"


section \<open>The status of a task along a run\<close>

text \<open>
  What an operation does to the status of a task, as a mark: \<open>(task_id, None)\<close> when it
  creates the record (\<open>_create_task\<close> writes the status \<open>queued\<close>), \<open>(task_id, Some u)\<close>
  when it is a \<open>_set_task\<close> whose keyword arguments bind \<open>status\<close> to \<open>u\<close> (the last
  binding wins in \<open>dict.update\<close>), and no mark otherwise. \<open>fut0\<close> collects the marks of
  a list of operations; \<open>eff\<close> and \<open>fut\<close> count for \<open>_start_background\<close> the marks of the
  worker it starts.
\<close>

type_synonym mark = "string \<times> uval option"

fun eff0 :: "action \<Rightarrow> mark list" where
  "eff0 (CreateTask task_id task_type ps) = [(task_id, None)]"
| "eff0 (SetTask task_id updates) =
     (case map_of (rev updates) ''status'' of None \<Rightarrow> [] | Some u \<Rightarrow> [(task_id, Some u)])"
| "eff0 a = []"

definition fut0 :: "action list \<Rightarrow> mark list" where
  "fut0 acts = concat (map eff0 acts)"

fun eff :: "env \<Rightarrow> action \<Rightarrow> mark list" where
  "eff E (StartBackground task_id p) = fut0 (priv_analyze_file_worker E task_id p)"
| "eff E a = eff0 a"

definition fut :: "env \<Rightarrow> action list \<Rightarrow> mark list" where
  "fut E acts = concat (map (eff E) acts)"

definition m_run :: "string \<Rightarrow> mark" where
  "m_run t = (t, Some (Val (PStr ''running'')))"

definition m_ok :: "string \<Rightarrow> mark" where
  "m_ok t = (t, Some (Val (PStr ''succeeded'')))"

definition m_bad :: "string \<Rightarrow> mark" where
  "m_bad t = (t, Some (Val (PStr ''failed'')))"

text \<open>The marks of a part of the worker's block, by the way the part ends.\<close>

definition part_ok :: "string \<Rightarrow> action list \<times> 'a flow \<Rightarrow> bool" where
  "part_ok t r =
     (filter is_start (fst r) = [] \<and>
      (case snd r of Return \<Rightarrow> fut0 (fst r) = [m_bad t] | _ \<Rightarrow> fut0 (fst r) = []))"

text \<open>
  The store is in order when the records lie below the allocation mark, no two task ids
  share a record, and every record has the key \<open>status\<close>. \<open>resolved\<close> is the value a
  keyword argument of \<open>_set_task\<close> has when the call is made.
\<close>

definition store_ok :: "server \<Rightarrow> bool" where
  "store_ok S =
     (addrs_ok S \<and> distinct (map snd (TASKS S)) \<and>
      (\<forall>t a. (t, a) \<in> set (TASKS S) \<longrightarrow>
         (\<exists>d v. heap S a = Some d \<and> map_of d ''status'' = Some v)))"

fun resolved :: "env \<Rightarrow> server \<Rightarrow> uval \<Rightarrow> pyval" where
  "resolved E S (Val v) = v"
| "resolved E S NowIso = PStr (priv_now_iso E S)"

text \<open>
  The \<open>lifetime\<close> of a task is the list of the marks of the thread that serves its
  request, those of the worker included. A thread is well formed when its marks are
  all for its own task and nothing with a mark follows a \<open>_start_background\<close>. The
  marks still to come for a task are those of the threads of that task
  (\<open>pending_of\<close>), and only the last thread of a task has any (\<open>only_last\<close>).
  \<open>status_at L k\<close> is the status after the first \<open>k\<close> marks of \<open>L\<close>, and \<open>at_pos L st G\<close>
  says that \<open>G\<close> is what is left of \<open>L\<close> at a position where the status is \<open>st\<close>.
\<close>

definition lifetime :: "env \<Rightarrow> string \<Rightarrow> params \<Rightarrow> mark list" where
  "lifetime E t p = fut E (snd (analyze_file_thread E t p))"

fun quiet_after_start :: "env \<Rightarrow> action list \<Rightarrow> bool" where
  "quiet_after_start E [] = True"
| "quiet_after_start E (a # as) = ((is_start a \<longrightarrow> fut E as = []) \<and> quiet_after_start E as)"

definition wf_thread :: "env \<Rightarrow> string \<times> action list \<Rightarrow> bool" where
  "wf_thread E th =
     ((\<forall>m \<in> set (fut E (snd th)). fst m = fst th) \<and> quiet_after_start E (snd th))"

definition contrib :: "env \<Rightarrow> string \<Rightarrow> string \<times> action list \<Rightarrow> mark list" where
  "contrib E t th = (if fst th = t then fut E (snd th) else [])"

definition pending_of :: "env \<Rightarrow> string \<Rightarrow> (string \<times> action list) list \<Rightarrow> mark list" where
  "pending_of E t ths = concat (map (contrib E t) ths)"

fun mark_value :: "mark \<Rightarrow> pyval option" where
  "mark_value (t, None) = Some (PStr ''queued'')"
| "mark_value (t, Some (Val v)) = Some v"
| "mark_value (t, Some NowIso) = None"

definition status_at :: "mark list \<Rightarrow> nat \<Rightarrow> pyval option" where
  "status_at L k = (if k = 0 then None else mark_value (L ! (k - 1)))"

definition at_pos :: "mark list \<Rightarrow> pyval option \<Rightarrow> mark list \<Rightarrow> bool" where
  "at_pos L st G = (\<exists>k \<le> length L. G = drop k L \<and> st = status_at L k)"

definition only_last :: "env \<Rightarrow> (string \<times> action list) list \<Rightarrow> bool" where
  "only_last E ths =
     (\<forall>i j. i < j \<longrightarrow> j < length ths \<longrightarrow> fst (ths ! i) = fst (ths ! j) \<longrightarrow>
        fut E (snd (ths ! i)) = [])"

text \<open>
  The events of the server's own code: a request to \<open>adf_analyze_file\<close>, a thread doing
  its next operation, the tools \<open>get_task\<close> and \<open>list_tasks\<close>, and the passing of time.
  No other code writes to \<open>TASKS\<close>. \<open>call_ids\<close> lists the task ids that \<open>uuid4\<close> gave to
  the requests of a run; they are taken to differ from one another.
\<close>

fun call_id :: "event \<Rightarrow> string list" where
  "call_id (Call t p) = [t]"
| "call_id (Run i) = []"
| "call_id (Req a) = []"

definition call_ids :: "event list \<Rightarrow> string list" where
  "call_ids evs = concat (map call_id evs)"

fun server_event :: "event \<Rightarrow> bool" where
  "server_event (Call t p) = True"
| "server_event (Run i) = True"
| "server_event (Req (GetTask t)) = True"
| "server_event (Req ListTasks) = True"
| "server_event (Req Tick) = True"
| "server_event (Req a) = False"

text \<open>
  The invariant of a run: the store is in order, the threads are well formed, a task id
  that no request has is unknown, and every task stands at a position of its lifetime
  with exactly the rest of its marks still to come. \<open>status_moved\<close>: from one state to
  the next, a status stays or moves one position along the lifetime of its task.
\<close>

definition lifecycle_inv :: "env \<Rightarrow> event list \<Rightarrow> server \<Rightarrow> bool" where
  "lifecycle_inv E evs S =
     (store_ok S \<and> (\<forall>th \<in> set (threads S). wf_thread E th) \<and> only_last E (threads S)
      \<and> (\<forall>t. t \<notin> set (call_ids evs) \<longrightarrow> t \<notin> fst ` set (threads S) \<and> status_of S t = None)
      \<and> (\<forall>t p. Call t p \<in> set evs \<longrightarrow>
            at_pos (lifetime E t p) (status_of S t) (pending_of E t (threads S))))"

definition status_moved :: "env \<Rightarrow> event list \<Rightarrow> server \<Rightarrow> server \<Rightarrow> bool" where
  "status_moved E evs S S' =
     (\<forall>t. status_of S' t = status_of S t \<or>
          (\<exists>p k. Call t p \<in> set evs \<and> k < length (lifetime E t p)
                 \<and> status_of S t = status_at (lifetime E t p) k
                 \<and> status_of S' t = status_at (lifetime E t p) (Suc k)))"

text \<open>
  The changes of status the code makes (\<open>None\<close>: there is no record), the sequences of
  statuses a task can have gone through, and the statuses of a task read at the start
  of a run and after each of its events.
\<close>

definition transition :: "pyval option \<Rightarrow> pyval option \<Rightarrow> bool" where
  "transition a b =
     (a = None \<and> b = Some (PStr ''queued'')
      \<or> a = Some (PStr ''queued'') \<and> b = Some (PStr ''running'')
      \<or> a = Some (PStr ''running'') \<and> b = Some (PStr ''succeeded'')
      \<or> a = Some (PStr ''running'') \<and> b = Some (PStr ''failed'')
      \<or> a = Some (PStr ''queued'') \<and> b = Some (PStr ''failed''))"

definition status_paths :: "pyval option list list" where
  "status_paths =
     [[None],
      [None, Some (PStr ''queued'')],
      [None, Some (PStr ''queued''), Some (PStr ''running'')],
      [None, Some (PStr ''queued''), Some (PStr ''running''), Some (PStr ''succeeded'')],
      [None, Some (PStr ''queued''), Some (PStr ''running''), Some (PStr ''failed'')],
      [None, Some (PStr ''queued''), Some (PStr ''failed'')]]"

fun status_history :: "env \<Rightarrow> event list \<Rightarrow> server \<Rightarrow> string \<Rightarrow> pyval option list" where
  "status_history E [] S task_id = [status_of S task_id]"
| "status_history E (ev # evs) S task_id =
     status_of S task_id # status_history E evs (step E ev S) task_id"

text \<open>The dictionary \<open>adf_analyze_file\<close> answers a request with.\<close>

definition analyze_file_answer :: "env \<Rightarrow> string \<Rightarrow> params \<Rightarrow> pydict" where
  "analyze_file_answer E task_id p =
     fst (adf_analyze_file E task_id (p_csv p) (p_txt p) (p_timestamp_col p) (p_value_col p)
            (p_delimiter p) (p_has_header p) (p_regression p) (p_max_lags p)
            (p_lags_method p) (p_analysis_type p))"

text \<open>
  A run with two requests: job \<open>B\<close> is in order and its worker (thread 2) runs to its
  end, with two reads of the registry in between; job \<open>C\<close> names no file.
\<close>

definition rejected_params :: params where
  "rejected_params = (demo_params 10)\<lparr>p_txt := None\<rparr>"

definition lifecycle_demo :: "event list" where
  "lifecycle_demo =
     [Call ''B'' (demo_params 10), Call ''C'' rejected_params,
      Run 0, Run 0, Run 1, Run 1,
      Run 2, Req (GetTask ''B''), Run 2, Run 2, Run 2, Req ListTasks, Run 2, Run 2, Run 2,
      Run 2, Run 2]"

section \<open>The stationarity test and the synchronous tools\<close>

lemma test_stationarity_short:
  "length (filter (\<lambda>x. \<not> isnan x) data) < 10 \<Longrightarrow>
   test_stationarity E data regression max_lags lags_method =
     ([], Inl (ValueError MSG_MIN_LENGTH))"
  by (simp add: test_stationarity_def)


text \<open>
  Claim C3. A series with fewer than 10 entries, before or after its NaN entries are
  removed, makes \<open>adf_test\<close> answer \<open>failed\<close> with an error message, and \<open>adfuller\<close> is
  not called: the list of calls is empty, \<open>test_stationarity\<close> itself makes none, and
  the answer is the same whatever function stands for \<open>adfuller\<close>.
\<close>

theorem adf_test_short_series_fails:
  assumes "length data < 10 \<or> length (filter (\<lambda>x. \<not> isnan x) data) < 10"
  shows "fst (adf_test E data regression max_lags lags_method) = []
     \<and> map_of (snd (adf_test E data regression max_lags lags_method)) ''status''
         = Some (PStr ''failed'')
     \<and> map_of (snd (adf_test E data regression max_lags lags_method)) ''error''
         \<in> {Some (PStr MSG_MIN_LENGTH), Some (PStr MSG_REGRESSION), Some (PStr MSG_LAGS_METHOD)}
     \<and> fst (test_stationarity E data regression max_lags lags_method) = []
     \<and> adf_test (E\<lparr>adfuller := f\<rparr>) data regression max_lags lags_method
         = adf_test E data regression max_lags lags_method"
proof -
  have "length (filter (\<lambda>x. \<not> isnan x) data) \<le> length data" by simp
  with assms have short: "length (filter (\<lambda>x. \<not> isnan x) data) < 10" by linarith
  show ?thesis
    by (simp add: adf_test_def test_stationarity_short [OF short])
qed

theorem adf_test_short_series_fails_witness:
  "length demo_gappy = 11
   \<and> length (filter (\<lambda>x. \<not> isnan x) demo_gappy) = 9
   \<and> adf_test demo_env demo_gappy ''c'' 10 ''aic''
       = ([], [(''status'', PStr ''failed''), (''error'', PStr MSG_MIN_LENGTH)])
   \<and> fst (test_stationarity demo_env demo_gappy ''c'' 10 ''aic'') = []"
proof -
  have n: "length demo_gappy = 11" "length (filter (\<lambda>x. \<not> isnan x) demo_gappy) = 9"
    by (simp_all add: demo_gappy_def)
  then have h: "length demo_gappy < 10 \<or> length (filter (\<lambda>x. \<not> isnan x) demo_gappy) < 10"
    by simp
  have a: "adf_test demo_env demo_gappy ''c'' 10 ''aic''
       = ([], [(''status'', PStr ''failed''), (''error'', PStr MSG_MIN_LENGTH)])"
    using adf_test_short_series_fails [OF h, of demo_env "''c''" 10 "''aic''"] n
    by (simp add: adf_test_def test_stationarity_def)
  from adf_test_short_series_fails [OF h, of demo_env "''c''" 10 "''aic''"] n a
  show ?thesis by simp
qed



subsection \<open>The loop of the batch test\<close>



lemma batch_loop_dom:
  "fst ` set (snd (batch_loop E dd r m l (cs, acc))) = fst ` set acc \<union> fst ` set dd"
proof (induction dd arbitrary: cs acc)
  case Nil
  then show ?case by simp
next
  case (Cons q dd)
  obtain n d where q: "q = (n, d)" by (cases q)
  obtain cs' entry where bi: "batch_item E d r m l = (cs', entry)"
    by (cases "batch_item E d r m l")
  show ?case
    using Cons.IH [of "cs @ cs'" "AList.update n entry acc"] q bi
    by (simp add: dom_update)
qed

lemma batch_loop_distinct:
  "distinct (map fst acc) \<Longrightarrow> distinct (map fst (snd (batch_loop E dd r m l (cs, acc))))"
proof (induction dd arbitrary: cs acc)
  case Nil
  then show ?case by simp
next
  case (Cons q dd)
  obtain n d where q: "q = (n, d)" by (cases q)
  obtain cs' entry where bi: "batch_item E d r m l = (cs', entry)"
    by (cases "batch_item E d r m l")
  from Cons.prems have "distinct (map fst (AList.update n entry acc))"
    by (rule distinct_update)
  from Cons.IH [OF this, of "cs @ cs'"] show ?case using q bi by simp
qed

lemma batch_loop_order:
  "distinct (map fst dd) \<Longrightarrow> set (map fst acc) \<inter> set (map fst dd) = {} \<Longrightarrow>
   map fst (snd (batch_loop E dd r m l (cs, acc))) = map fst acc @ map fst dd"
proof (induction dd arbitrary: cs acc)
  case Nil
  then show ?case by simp
next
  case (Cons q dd)
  obtain n d where q: "q = (n, d)" by (cases q)
  obtain cs' entry where bi: "batch_item E d r m l = (cs', entry)"
    by (cases "batch_item E d r m l")
  from Cons.prems q have n: "n \<notin> set (map fst acc)" "n \<notin> set (map fst dd)" by auto
  have k: "map fst (AList.update n entry acc) = map fst acc @ [n]"
    using n by (simp add: update_keys)
  from Cons.prems q n have "distinct (map fst dd)"
    and "set (map fst (AList.update n entry acc)) \<inter> set (map fst dd) = {}"
    by (auto simp: k)
  from Cons.IH [OF this, of "cs @ cs'"] show ?case using q bi k by simp
qed

lemma batch_test_answer:
  "data_dict \<noteq> [] \<Longrightarrow>
   snd (adf_batch_test E data_dict r m l) =
     [(''status'', PStr ''success''),
      (''results'', PDict (snd (batch_loop E data_dict r m l ([], []))))]"
  by (cases "batch_loop E data_dict r m l ([], [])") (simp add: adf_batch_test_def)









text \<open>
  Claim C9. The three synchronous tools return, for every input and whatever the
  collaborators do (return or raise), a dictionary of the shape \<open>is_outcome\<close>: the
  status \<open>success\<close> with the payload, or the status \<open>failed\<close> with an error string.
  No exception leaves them: each is a value of the dictionary type, and every raise of
  the model is caught by the handler of the tool.
\<close>

theorem sync_tools_return_outcome:
  "is_outcome ''result'' (snd (adf_test E data regression max_lags lags_method))
   \<and> is_outcome ''results'' (snd (adf_batch_test E data_dict regression max_lags lags_method))
   \<and> is_outcome ''interpretation''
       (adf_interpret E statistic p_value critical_values regression)"
proof -
  have 1: "is_outcome ''result'' (snd (adf_test E data regression max_lags lags_method))"
    by (cases "test_stationarity E data regression max_lags lags_method")
       (auto simp: adf_test_def is_outcome_def split: sum.splits)
  have 2: "is_outcome ''results''
             (snd (adf_batch_test E data_dict regression max_lags lags_method))"
    by (cases "batch_loop E data_dict regression max_lags lags_method ([], [])")
       (auto simp: adf_batch_test_def is_outcome_def)
  have 3: "is_outcome ''interpretation''
             (adf_interpret E statistic p_value critical_values regression)"
    by (auto simp: adf_interpret_def is_outcome_def split: sum.splits)
  from 1 2 3 show ?thesis by simp
qed

theorem sync_tools_return_outcome_witness:
  "is_outcome ''result'' (snd (adf_test demo_env (replicate 12 NaN) ''c'' (- 1) ''aic''))
   \<and> is_outcome ''results'' (snd (adf_batch_test demo_env demo_batch ''c'' (- 1) ''aic''))
   \<and> is_outcome ''interpretation'' (adf_interpret demo_env NaN NaN [] ''c'')"
  using sync_tools_return_outcome
    [of demo_env "replicate 12 NaN" "''c''" "- 1" "''aic''" demo_batch NaN NaN "[]"]
  by simp

text \<open>
  What \<open>adf_interpret\<close> answers: \<open>get_interpretation\<close> subscripts its argument with
  \<open>is_stationary\<close>, a key that the dictionary built by \<open>adf_interpret\<close> does not have.
\<close>

lemma adf_interpret_answer:
  "adf_interpret E statistic p_value critical_values regression =
     [(''status'', PStr ''failed''), (''error'', PStr (str_exn (KeyError ''is_stationary'')))]"
  by (simp add: adf_interpret_def get_interpretation_def ebind_def getitem_def)

text \<open>
  Claim C10. For a mapping that is not empty, the answer of \<open>adf_batch_test\<close> holds a
  results map with exactly one entry for each name of the input and no other entry;
  the entries are in the order of the input.
\<close>

theorem batch_test_results_keys:
  assumes "data_dict \<noteq> []"
  shows "\<exists>results.
           snd (adf_batch_test E data_dict regression max_lags lags_method) =
             [(''status'', PStr ''success''), (''results'', PDict results)]
         \<and> distinct (map fst results)
         \<and> set (map fst results) = set (map fst data_dict)
         \<and> (distinct (map fst data_dict) \<longrightarrow> map fst results = map fst data_dict)"
proof -
  let ?results = "snd (batch_loop E data_dict regression max_lags lags_method ([], []))"
  have 0: "snd (adf_batch_test E data_dict regression max_lags lags_method) =
             [(''status'', PStr ''success''), (''results'', PDict ?results)]"
    by (rule batch_test_answer [OF assms])
  have 1: "distinct (map fst ?results)"
    by (rule batch_loop_distinct) simp
  have 2: "set (map fst ?results) = set (map fst data_dict)"
    using batch_loop_dom [of E data_dict regression max_lags lags_method "[]" "[]"] by simp
  have 3: "distinct (map fst data_dict) \<longrightarrow> map fst ?results = map fst data_dict"
    using batch_loop_order [of data_dict "[]" E regression max_lags lags_method "[]"] by simp
  show ?thesis
    by (rule exI [of _ ?results]) (intro conjI 0 1 2 3)
qed

theorem batch_test_results_keys_witness:
  "\<exists>results.
     snd (adf_batch_test demo_env demo_batch ''c'' 10 ''aic'') =
       [(''status'', PStr ''success''), (''results'', PDict results)]
   \<and> map fst results = [''a'', ''b'']"
proof -
  have ne: "demo_batch \<noteq> []" by (simp add: demo_batch_def)
  have d: "distinct (map fst demo_batch)" "map fst demo_batch = [''a'', ''b'']"
    by (simp_all add: demo_batch_def)
  from batch_test_results_keys [OF ne, of demo_env "''c''" 10 "''aic''"]
  obtain results where r:
    "snd (adf_batch_test demo_env demo_batch ''c'' 10 ''aic'') =
       [(''status'', PStr ''success''), (''results'', PDict results)]"
    "distinct (map fst demo_batch) \<longrightarrow> map fst results = map fst demo_batch"
    by blast
  from r(2) d have m: "map fst results = [''a'', ''b'']" by simp
  show ?thesis
    by (rule exI [of _ results]) (intro conjI r(1) m)
qed

section \<open>The registry: reads are copies\<close>

lemma update_memD: "(k', b) \<in> set (AList.update k v al) \<Longrightarrow> b = v \<or> (k', b) \<in> set al"
  by (induction al) (auto split: if_splits)

lemma addrs_ok_init: "addrs_ok (init_server getenv)"
  by (simp add: addrs_ok_def init_server_def)

lemma copy_all_facts:
  "copy_all xs S = (bs, S') \<Longrightarrow>
   TASKS S' = TASKS S \<and> next_addr S \<le> next_addr S' \<and>
   (\<forall>b \<in> set bs. next_addr S \<le> b \<and> b < next_addr S') \<and>
   (\<forall>x < next_addr S. heap S' x = heap S x) \<and>
   threads S' = threads S \<and> TASKS_SEM S' = TASKS_SEM S \<and> clock S' = clock S"
proof (induction xs arbitrary: S bs S')
  case Nil
  then show ?case by simp
next
  case (Cons x xs)
  obtain b S1 where al: "alloc (case heap S x of None \<Rightarrow> [] | Some d \<Rightarrow> d) S = (b, S1)"
    by (cases "alloc (case heap S x of None \<Rightarrow> [] | Some d \<Rightarrow> d) S")
  obtain cs S2 where ca: "copy_all xs S1 = (cs, S2)"
    by (cases "copy_all xs S1")
  from Cons.prems al ca have bs: "bs = b # cs" and S': "S' = S2" by auto
  from al have b: "b = next_addr S" and n1: "next_addr S1 = Suc (next_addr S)"
    and t1: "TASKS S1 = TASKS S" and h1: "\<forall>x < next_addr S. heap S1 x = heap S x"
    and o1: "threads S1 = threads S" "TASKS_SEM S1 = TASKS_SEM S" "clock S1 = clock S"
    by (auto simp: alloc_def)
  from Cons.IH [OF ca] b n1 t1 h1 o1 bs S' show ?case by auto
qed

lemma copy_all_kept:
  assumes "copy_all xs S = (bs, S')" and "kept S a"
  shows "kept S' a \<and> heap S' a = heap S a"
  using copy_all_facts [OF assms(1)] assms(2) by (fastforce simp: kept_def addrs_ok_def)

lemma do_action_kept:
  assumes "kept S a" and "do_action E act S = Some S'"
  shows "kept S' a \<and> heap S' a = heap S a"
proof (cases act)
  case (CreateTask task_id task_type ps)
  with assms show ?thesis
    by (fastforce simp: kept_def addrs_ok_def priv_create_task_def alloc_def
          dest!: update_memD)
next
  case (SetTask task_id updates)
  with assms show ?thesis
    by (fastforce simp: kept_def addrs_ok_def priv_set_task_def split: option.splits
             dest!: map_of_SomeD)
next
  case (GetTask task_id)
  with assms show ?thesis
    by (fastforce simp: kept_def addrs_ok_def priv_get_task_def alloc_def split: option.splits)
next
  case ListTasks
  obtain bs S2 where ca: "copy_all (map snd (TASKS S)) S = (bs, S2)"
    by (cases "copy_all (map snd (TASKS S)) S")
  with ListTasks assms have "S' = S2" by (simp add: priv_list_tasks_def)
  with copy_all_kept [OF ca assms(1)] show ?thesis by simp
next
  case (StartBackground task_id p)
  with assms show ?thesis
    by (fastforce simp: kept_def addrs_ok_def priv_start_background_def)
next
  case Acquire
  with assms show ?thesis
    by (fastforce simp: kept_def addrs_ok_def split: if_splits)
next
  case Release
  with assms show ?thesis by (fastforce simp: kept_def addrs_ok_def)
next
  case (CallAdfuller c)
  with assms show ?thesis by auto
next
  case Tick
  with assms show ?thesis by (fastforce simp: kept_def addrs_ok_def)
qed

lemma kept_threads [simp]: "kept (S\<lparr>threads := ts\<rparr>) a = kept S a"
  by (simp add: kept_def addrs_ok_def)

lemma step_kept:
  assumes "kept S a"
  shows "kept (step E ev S) a \<and> heap (step E ev S) a = heap S a"
proof (cases ev)
  case (Call task_id p)
  with assms show ?thesis by simp
next
  case (Req act)
  with assms do_action_kept [OF assms, of E act] show ?thesis
    by (auto split: option.splits)
next
  case (Run i)
  show ?thesis
  proof (cases "i < length (threads S)")
    case False
    with Run assms show ?thesis by simp
  next
    case True
    obtain task_id rem where th: "threads S ! i = (task_id, rem)"
      by (cases "threads S ! i")
    show ?thesis
    proof (cases rem)
      case Nil
      with Run True th assms show ?thesis by simp
    next
      case (Cons act rest)
      show ?thesis
      proof (cases "do_action E act S")
        case None
        with Run True th Cons assms show ?thesis by simp
      next
        case (Some S')
        from do_action_kept [OF assms Some] Run True th Cons Some show ?thesis by simp
      qed
    qed
  qed
qed

lemma exec_kept: "kept S a \<Longrightarrow> kept (exec E evs S) a \<and> heap (exec E evs S) a = heap S a"
proof (induction evs arbitrary: S)
  case Nil
  then show ?case by (simp add: exec_def)
next
  case (Cons ev evs)
  from step_kept [OF Cons.prems, of E ev]
  have k: "kept (step E ev S) a" and h: "heap (step E ev S) a = heap S a" by auto
  from Cons.IH [OF k] h show ?case by (simp add: exec_def)
qed

lemma do_action_addrs_ok:
  assumes "addrs_ok S" and "do_action E act S = Some S'"
  shows "addrs_ok S'"
proof (cases act)
  case (CreateTask task_id task_type ps)
  with assms show ?thesis
    by (fastforce simp: addrs_ok_def priv_create_task_def alloc_def dest!: update_memD)
next
  case (SetTask task_id updates)
  with assms show ?thesis
    by (fastforce simp: addrs_ok_def priv_set_task_def split: option.splits)
next
  case (GetTask task_id)
  with assms show ?thesis
    by (fastforce simp: addrs_ok_def priv_get_task_def alloc_def split: option.splits)
next
  case ListTasks
  obtain bs S2 where ca: "copy_all (map snd (TASKS S)) S = (bs, S2)"
    by (cases "copy_all (map snd (TASKS S)) S")
  with ListTasks assms have "S' = S2" by (simp add: priv_list_tasks_def)
  with copy_all_facts [OF ca] assms(1) show ?thesis by (fastforce simp: addrs_ok_def)
next
  case (StartBackground task_id p)
  with assms show ?thesis by (fastforce simp: addrs_ok_def priv_start_background_def)
next
  case Acquire
  with assms show ?thesis by (fastforce simp: addrs_ok_def split: if_splits)
next
  case Release
  with assms show ?thesis by (fastforce simp: addrs_ok_def)
next
  case (CallAdfuller c)
  with assms show ?thesis by auto
next
  case Tick
  with assms show ?thesis by (fastforce simp: addrs_ok_def)
qed

lemma addrs_ok_threads [simp]: "addrs_ok (S\<lparr>threads := ts\<rparr>) = addrs_ok S"
  by (simp add: addrs_ok_def)

lemma step_addrs_ok:
  assumes "addrs_ok S"
  shows "addrs_ok (step E ev S)"
proof (cases ev)
  case (Call task_id p)
  with assms show ?thesis by simp
next
  case (Req act)
  with assms do_action_addrs_ok [OF assms, of E act] show ?thesis
    by (auto split: option.splits)
next
  case (Run i)
  show ?thesis
  proof (cases "i < length (threads S)")
    case False
    with Run assms show ?thesis by simp
  next
    case True
    obtain task_id rem where th: "threads S ! i = (task_id, rem)"
      by (cases "threads S ! i")
    show ?thesis
    proof (cases rem)
      case Nil
      with Run True th assms show ?thesis by simp
    next
      case (Cons act rest)
      show ?thesis
      proof (cases "do_action E act S")
        case None
        with Run True th Cons assms show ?thesis by simp
      next
        case (Some S')
        from do_action_addrs_ok [OF assms Some] Run True th Cons Some show ?thesis by simp
      qed
    qed
  qed
qed

lemma exec_addrs_ok: "addrs_ok S \<Longrightarrow> addrs_ok (exec E evs S)"
proof (induction evs arbitrary: S)
  case Nil
  then show ?case by (simp add: exec_def)
next
  case (Cons ev evs)
  from Cons.IH [OF step_addrs_ok [OF Cons.prems, of E ev]] show ?case by (simp add: exec_def)
qed

lemma get_task_kept:
  assumes "addrs_ok S"
  shows "kept (snd (priv_get_task task_id S)) (fst (priv_get_task task_id S))"
  using assms
  by (fastforce simp: kept_def addrs_ok_def priv_get_task_def alloc_def split: option.splits)

lemma get_task_copy:
  "heap (snd (priv_get_task task_id S)) (fst (priv_get_task task_id S)) =
   Some (case map_of (TASKS S) task_id of None \<Rightarrow> []
         | Some a \<Rightarrow> (case heap S a of None \<Rightarrow> [] | Some d \<Rightarrow> d))"
  by (auto simp: priv_get_task_def alloc_def split: option.splits)

lemma list_tasks_kept:
  assumes "addrs_ok S" and "b \<in> set (fst (priv_list_tasks S))"
  shows "kept (snd (priv_list_tasks S)) b"
proof -
  obtain bs S2 where ca: "copy_all (map snd (TASKS S)) S = (bs, S2)"
    by (cases "copy_all (map snd (TASKS S)) S")
  from assms ca have b: "b \<in> set bs" by (simp add: priv_list_tasks_def)
  from copy_all_facts [OF ca] b have f: "TASKS S2 = TASKS S" "next_addr S \<le> b" "b < next_addr S2"
    "next_addr S \<le> next_addr S2" by auto
  from assms(1) f have "addrs_ok S2" by (fastforce simp: addrs_ok_def)
  moreover from assms(1) f have "\<forall>t. (t, b) \<notin> set (TASKS S2)" by (fastforce simp: addrs_ok_def)
  ultimately show ?thesis using f ca by (simp add: kept_def priv_list_tasks_def)
qed

text \<open>
  Claim C5. \<open>_get_task\<close> and \<open>_list_tasks\<close> hand out new dictionary objects, copies of
  the records as they are at the time of the read. Whatever happened before the read,
  and whatever happens to the server after it (any operations of any threads, among
  them every \<open>_set_task\<close>), the fields of the objects handed out stay as they were.
\<close>

theorem registry_reads_are_snapshots:
  "heap (exec E later (snd (priv_get_task task_id (exec E history (init_server getenv)))))
        (fst (priv_get_task task_id (exec E history (init_server getenv))))
   = heap (snd (priv_get_task task_id (exec E history (init_server getenv))))
          (fst (priv_get_task task_id (exec E history (init_server getenv))))
   \<and> heap (snd (priv_get_task task_id (exec E history (init_server getenv))))
          (fst (priv_get_task task_id (exec E history (init_server getenv))))
     = Some (case map_of (TASKS (exec E history (init_server getenv))) task_id of
               None \<Rightarrow> []
             | Some a \<Rightarrow> (case heap (exec E history (init_server getenv)) a of
                           None \<Rightarrow> [] | Some d \<Rightarrow> d))
   \<and> map (heap (exec E later (snd (priv_list_tasks (exec E history (init_server getenv))))))
          (fst (priv_list_tasks (exec E history (init_server getenv))))
     = map (heap (snd (priv_list_tasks (exec E history (init_server getenv)))))
           (fst (priv_list_tasks (exec E history (init_server getenv))))"
proof -
  let ?S = "exec E history (init_server getenv)"
  have ok: "addrs_ok ?S" by (rule exec_addrs_ok) (rule addrs_ok_init)
  have 1: "heap (exec E later (snd (priv_get_task task_id ?S))) (fst (priv_get_task task_id ?S))
          = heap (snd (priv_get_task task_id ?S)) (fst (priv_get_task task_id ?S))"
    using exec_kept [OF get_task_kept [OF ok]] by simp
  have 2: "map (heap (exec E later (snd (priv_list_tasks ?S)))) (fst (priv_list_tasks ?S))
          = map (heap (snd (priv_list_tasks ?S))) (fst (priv_list_tasks ?S))"
  proof (rule map_cong [OF refl])
    fix b assume "b \<in> set (fst (priv_list_tasks ?S))"
    from exec_kept [OF list_tasks_kept [OF ok this]]
    show "heap (exec E later (snd (priv_list_tasks ?S))) b = heap (snd (priv_list_tasks ?S)) b"
      by simp
  qed
  show ?thesis by (intro conjI 1 2 get_task_copy)
qed

text \<open>
  The record of task \<open>A\<close> is read while it is queued; afterwards its worker runs to the
  end and marks it failed. The copy still says \<open>queued\<close>, the record says \<open>failed\<close>.
\<close>

theorem registry_reads_are_snapshots_witness:
  "map_of (the (heap (exec demo_env later_demo (snd (priv_get_task ''A'' (exec demo_env history_demo (init_server None)))))
                  (fst (priv_get_task ''A'' (exec demo_env history_demo (init_server None))))))
          ''status'' = Some (PStr ''queued'')
   \<and> status_of (exec demo_env later_demo (snd (priv_get_task ''A'' (exec demo_env history_demo (init_server None))))) ''A''
       = Some (PStr ''failed'')"
proof -
  have 1: "map_of (the (heap (snd (priv_get_task ''A'' (exec demo_env history_demo (init_server None))))
                  (fst (priv_get_task ''A'' (exec demo_env history_demo (init_server None))))))
          ''status'' = Some (PStr ''queued'')"
    by code_simp
  have 2: "status_of (exec demo_env later_demo (snd (priv_get_task ''A'' (exec demo_env history_demo (init_server None))))) ''A''
       = Some (PStr ''failed'')"
    by code_simp
  from registry_reads_are_snapshots [of demo_env later_demo "''A''" history_demo None] 1 2
  show ?thesis by simp
qed

section \<open>The worker\<close>

lemma map_filter_app: "List.map_filter f (xs @ ys) = List.map_filter f xs @ List.map_filter f ys"
  by (simp add: List.map_filter_def)

lemma map_filter_Cons: "List.map_filter f (x # xs) = (case f x of None \<Rightarrow> List.map_filter f xs | Some y \<Rightarrow> y # List.map_filter f xs)"
  by (simp add: List.map_filter_def split: option.splits)

lemma map_filter_Nil: "List.map_filter f [] = []"
  by (simp add: List.map_filter_def)

lemmas mf = map_filter_app map_filter_Cons map_filter_Nil

lemma calls_of_calls [simp]: "List.map_filter call_of (map CallAdfuller cs) = cs"
  by (induction cs) (simp_all add: mf)

lemma wbind_simps:
  "wbind (as, Next x) f = (as @ fst (f x), snd (f x))"
  "wbind (as, Return) f = (as, Return)"
  "wbind (as, Raise e) f = (as, Raise e)"
  by (simp_all add: wbind_def split: prod.splits)


lemma filter_nan_idem: "filter (\<lambda>x. \<not> isnan x) (filter (\<lambda>x. \<not> isnan x) xs) = filter (\<lambda>x. \<not> isnan x) xs"
  by simp


lemma updates_of_calls [simp]: "List.map_filter succeeded_update (map CallAdfuller cs) = []"
  by (induction cs) (simp_all add: mf)










section \<open>The submission\<close>

lemma create_then_fail:
  "\<exists>S'. do_actions E [CreateTask tid ty ps, SetTask tid (failed_update msg)] S = Some S'
     \<and> status_of S' tid = Some (PStr ''failed'')
     \<and> task_field S' tid ''error'' = Some (PStr msg)
     \<and> threads S' = threads S \<and> TASKS_SEM S' = TASKS_SEM S"
  by (simp add: priv_create_task_def alloc_def priv_set_task_def update_conv'
        dict_update_def status_of_def task_field_def failed_update_def)

lemma analyze_file_cases:
  "adf_analyze_file E tid csv txt tc vc dl hh rg ml lm atype =
     (if (opt_truthy csv \<and> opt_truthy txt) \<or> (\<not> opt_truthy csv \<and> \<not> opt_truthy txt) then
        ([(''status'', PStr ''failed''), (''task_id'', PStr tid),
          (''type'', PStr ''adf_analyze_file''), (''error'', PStr MSG_ONE_FILE)],
         [CreateTask tid ''adf_analyze_file''
            (params_dict \<lparr>p_csv = csv, p_txt = txt, p_timestamp_col = tc, p_value_col = vc,
               p_delimiter = dl, p_has_header = hh, p_regression = rg, p_max_lags = ml,
               p_lags_method = lm, p_analysis_type = atype\<rparr>),
          SetTask tid (failed_update MSG_ONE_FILE)])
      else if \<not> path_exists E (or_path csv txt) then
        ([(''status'', PStr ''failed''), (''task_id'', PStr tid),
          (''type'', PStr ''adf_analyze_file''),
          (''error'', PStr (MSG_NO_FILE @ or_path csv txt))],
         [CreateTask tid ''adf_analyze_file''
            (params_dict \<lparr>p_csv = csv, p_txt = txt, p_timestamp_col = tc, p_value_col = vc,
               p_delimiter = dl, p_has_header = hh, p_regression = rg, p_max_lags = ml,
               p_lags_method = lm, p_analysis_type = atype\<rparr>),
          SetTask tid (failed_update (MSG_NO_FILE @ or_path csv txt))])
      else
        ([(''status'', PStr ''queued''), (''task_id'', PStr tid),
          (''type'', PStr ''adf_analyze_file'')],
         [CreateTask tid ''adf_analyze_file''
            (params_dict \<lparr>p_csv = csv, p_txt = txt, p_timestamp_col = tc, p_value_col = vc,
               p_delimiter = dl, p_has_header = hh, p_regression = rg, p_max_lags = ml,
               p_lags_method = lm, p_analysis_type = atype\<rparr>),
          StartBackground tid
            \<lparr>p_csv = csv, p_txt = txt, p_timestamp_col = tc, p_value_col = vc,
               p_delimiter = dl, p_has_header = hh, p_regression = rg, p_max_lags = ml,
               p_lags_method = lm, p_analysis_type = atype\<rparr>]))"
  by (simp add: adf_analyze_file_def Let_def failed_update_def)

lemma failed_actions_quiet:
  "filter is_start [CreateTask tid ty ps, SetTask tid ups] = []"
  "Acquire \<notin> set [CreateTask tid ty ps, SetTask tid ups]"
  by simp_all

text \<open>
  Claim C4. When both paths are given, or none is, or the path given does not exist
  (a path counts as given when it is a non-empty string, which is what the test
  \<open>(csv and txt) or (not csv and not txt)\<close> reads), \<open>adf_analyze_file\<close> answers
  \<open>failed\<close> with the task id and the message; its operations are the creation of the
  record and the update that marks it failed, neither a thread start nor the taking of
  the semaphore; run on any state, they leave the record failed with the message, and
  the threads and the semaphore as they were.
\<close>

theorem analyze_file_rejects_synchronously:
  assumes "(opt_truthy csv \<and> opt_truthy txt) \<or> (\<not> opt_truthy csv \<and> \<not> opt_truthy txt)
           \<or> \<not> path_exists E (or_path csv txt)"
  shows "\<exists>msg S'.
           fst (adf_analyze_file E tid csv txt tc vc dl hh rg ml lm atype) =
             [(''status'', PStr ''failed''), (''task_id'', PStr tid),
              (''type'', PStr ''adf_analyze_file''), (''error'', PStr msg)]
         \<and> filter is_start (snd (adf_analyze_file E tid csv txt tc vc dl hh rg ml lm atype)) = []
         \<and> Acquire \<notin> set (snd (adf_analyze_file E tid csv txt tc vc dl hh rg ml lm atype))
         \<and> do_actions E (snd (adf_analyze_file E tid csv txt tc vc dl hh rg ml lm atype)) S = Some S'
         \<and> status_of S' tid = Some (PStr ''failed'')
         \<and> task_field S' tid ''error'' = Some (PStr msg)
         \<and> threads S' = threads S \<and> TASKS_SEM S' = TASKS_SEM S"
proof -
  define ps where "ps = params_dict \<lparr>p_csv = csv, p_txt = txt, p_timestamp_col = tc,
     p_value_col = vc, p_delimiter = dl, p_has_header = hh, p_regression = rg,
     p_max_lags = ml, p_lags_method = lm, p_analysis_type = atype\<rparr>"
  define msg where "msg =
     (if (opt_truthy csv \<and> opt_truthy txt) \<or> (\<not> opt_truthy csv \<and> \<not> opt_truthy txt)
      then MSG_ONE_FILE else MSG_NO_FILE @ or_path csv txt)"
  have eq: "adf_analyze_file E tid csv txt tc vc dl hh rg ml lm atype =
      ([(''status'', PStr ''failed''), (''task_id'', PStr tid),
        (''type'', PStr ''adf_analyze_file''), (''error'', PStr msg)],
       [CreateTask tid ''adf_analyze_file'' ps, SetTask tid (failed_update msg)])"
    using assms unfolding analyze_file_cases msg_def ps_def by (simp only: if_True if_False split: if_splits) auto
  from create_then_fail [of E tid "''adf_analyze_file''" ps msg S]
  obtain S' where S':
    "do_actions E [CreateTask tid ''adf_analyze_file'' ps, SetTask tid (failed_update msg)] S = Some S'"
    "status_of S' tid = Some (PStr ''failed'')" "task_field S' tid ''error'' = Some (PStr msg)"
    "threads S' = threads S" "TASKS_SEM S' = TASKS_SEM S" by blast
  show ?thesis
    unfolding eq fst_conv snd_conv
    using S' failed_actions_quiet [of tid "''adf_analyze_file''" ps "failed_update msg"]
    by blast
qed

theorem analyze_file_rejects_synchronously_witness:
  "\<exists>S'. fst (adf_analyze_file demo_env ''T'' (Some ''a.csv'') (Some ''series.txt'')
                ''Date'' ''EventId'' '' '' True ''c'' 10 ''aic'' ''log_analysis'') =
             [(''status'', PStr ''failed''), (''task_id'', PStr ''T''),
              (''type'', PStr ''adf_analyze_file''), (''error'', PStr MSG_ONE_FILE)]
     \<and> do_actions demo_env
          (snd (adf_analyze_file demo_env ''T'' (Some ''a.csv'') (Some ''series.txt'')
                  ''Date'' ''EventId'' '' '' True ''c'' 10 ''aic'' ''log_analysis''))
          (init_server None) = Some S'
     \<and> status_of S' ''T'' = Some (PStr ''failed'')
     \<and> threads S' = [] \<and> TASKS_SEM S' = 2"
proof -
  have h: "(opt_truthy (Some ''a.csv'') \<and> opt_truthy (Some ''series.txt''))
           \<or> (\<not> opt_truthy (Some ''a.csv'') \<and> \<not> opt_truthy (Some ''series.txt''))
           \<or> \<not> path_exists demo_env (or_path (Some ''a.csv'') (Some ''series.txt''))"
    by simp
  have f: "fst (adf_analyze_file demo_env ''T'' (Some ''a.csv'') (Some ''series.txt'')
                ''Date'' ''EventId'' '' '' True ''c'' 10 ''aic'' ''log_analysis'') =
             [(''status'', PStr ''failed''), (''task_id'', PStr ''T''),
              (''type'', PStr ''adf_analyze_file''), (''error'', PStr MSG_ONE_FILE)]"
    by (simp add: adf_analyze_file_def)
  from analyze_file_rejects_synchronously [OF h, of "''T''" "''Date''" "''EventId''"
      "'' ''" True "''c''" 10 "''aic''" "''log_analysis''" "init_server None"]
  obtain S' where s:
    "do_actions demo_env
          (snd (adf_analyze_file demo_env ''T'' (Some ''a.csv'') (Some ''series.txt'')
                  ''Date'' ''EventId'' '' '' True ''c'' 10 ''aic'' ''log_analysis''))
          (init_server None) = Some S'"
    "status_of S' ''T'' = Some (PStr ''failed'')"
    "threads S' = threads (init_server None)" "TASKS_SEM S' = TASKS_SEM (init_server None)"
    by blast
  have t: "threads S' = []" "TASKS_SEM S' = 2"
    using s(3,4) by (simp_all add: init_server_def MAX_CONCURRENT_def)
  show ?thesis
    by (rule exI [of _ S']) (intro conjI f s(1) s(2) t)
qed

section \<open>The semaphore and the status \<open>running\<close>\<close>

text \<open>
  Claim C1 fails on the code. The handler \<open>except Exception\<close> of the worker lies
  outside the \<open>with TASKS_SEM\<close> block: when the block raises, the semaphore is given
  back first and the task is marked \<open>failed\<close> afterwards, and in between its status is
  still \<open>running\<close>. In the run \<open>race\<close>, with one slot, the tasks \<open>A\<close> and \<open>B\<close> are both
  \<open>running\<close>.
\<close>

theorem running_exceeds_capacity:
  "MAX_CONCURRENT (Some 1) = 1
   \<and> running_tasks (exec demo_env race (init_server (Some 1))) = [''A'', ''B'']
   \<and> TASKS_SEM (exec demo_env race (init_server (Some 1))) = 0"
  by code_simp


section \<open>The life cycle of a task\<close>

subsection \<open>The marks of the worker\<close>

lemma fut0_simps [simp]:
  "fut0 [] = []" "fut0 (a # as) = eff0 a @ fut0 as" "fut0 (as @ bs) = fut0 as @ fut0 bs"
  by (simp_all add: fut0_def)

lemma fut_simps [simp]:
  "fut E [] = []" "fut E (a # as) = eff E a @ fut E as" "fut E (as @ bs) = fut E as @ fut E bs"
  by (simp_all add: fut_def)

lemma fut0_calls [simp]: "fut0 (map CallAdfuller cs) = []"
  by (induction cs) simp_all

lemma starts_calls [simp]: "filter is_start (map CallAdfuller cs) = []"
  by (induction cs) simp_all

lemma fail_and_return_marks:
  "fut0 (fst (fail_and_return t msg)) = [m_bad t]"
  "snd (fail_and_return t msg) = Return"
  "filter is_start (fst (fail_and_return t msg)) = []"
  by (simp_all add: fail_and_return_def m_bad_def)

lemma load_part: "part_ok t (worker_load E t p ft path)"
  by (auto simp: part_ok_def worker_load_def load_csv_def load_txt_def lift_def wbind_def
        fail_and_return_def m_bad_def split: sum.splits)

lemma analyse_part:
  "filter is_start (fst (worker_analyse E t p atype path ft ts0)) = []
   \<and> (case snd (worker_analyse E t p atype path ft ts0) of
         Return \<Rightarrow> fut0 (fst (worker_analyse E t p atype path ft ts0)) = [m_bad t]
       | Raise e \<Rightarrow> fut0 (fst (worker_analyse E t p atype path ft ts0)) = []
       | Next u \<Rightarrow> fut0 (fst (worker_analyse E t p atype path ft ts0)) = [m_ok t])"
proof (cases "np_len ts0 < 10")
  case True
  then show ?thesis
    by (simp add: worker_analyse_def wthen_def emit_def wbind_simps fail_and_return_def m_bad_def)
next
  case long: False
  show ?thesis
  proof (cases "drop_nan ts0")
    case (Inl e)
    with long show ?thesis
      by (simp add: worker_analyse_def wthen_def emit_def wbind_simps lift_def)
  next
    case (Inr ts)
    show ?thesis
    proof (cases "length ts < 10")
      case True
      with long Inr show ?thesis
        by (simp add: worker_analyse_def wthen_def emit_def wbind_simps lift_def
              fail_and_return_def m_bad_def)
    next
      case False
      obtain calls r where ts: "test_stationarity E ts (p_regression p) (p_max_lags p) (p_lags_method p) = (calls, r)"
        by (cases "test_stationarity E ts (p_regression p) (p_max_lags p) (p_lags_method p)")
      show ?thesis
      proof (cases r)
        case (Inl e)
        with long Inr False ts show ?thesis
          by (simp add: worker_analyse_def wthen_def emit_def wbind_simps lift_def
                call_test_stationarity_def)
      next
        case adf: (Inr adf_result)
        show ?thesis
        proof (cases "build_result E atype path ft ts adf_result")
          case (Inl e)
          with long Inr False ts adf show ?thesis
            by (simp add: worker_analyse_def wthen_def emit_def wbind_simps lift_def
                  call_test_stationarity_def)
        next
          case res: (Inr result)
          with long Inr False ts adf show ?thesis
            by (simp add: worker_analyse_def wthen_def emit_def wbind_simps lift_def
                  call_test_stationarity_def m_ok_def)
        qed
      qed
    qed
  qed
qed

lemma body_marks:
  "filter is_start (fst (worker_body E t p)) = []
   \<and> (case snd (worker_body E t p) of
         Return \<Rightarrow> fut0 (fst (worker_body E t p)) = [m_run t, m_bad t]
       | Raise e \<Rightarrow> fut0 (fst (worker_body E t p)) = [m_run t]
       | Next u \<Rightarrow> fut0 (fst (worker_body E t p)) = [m_run t, m_ok t])"
proof -
  define fp where "fp = (if opt_truthy (p_csv p) then p_csv p else p_txt p)"
  define ft where "ft = (if opt_truthy (p_csv p) then ''csv'' else ''txt'')"
  have wb: "worker_body E t p =
      wthen (emit (SetTask t
               [(''status'', Val (PStr ''running'')), (''started_at'', NowIso),
                (''progress'', Val (PFloat (Float (1 / 10))))]))
      (wthen (emit (SetTask t [(''progress'', Val (PFloat (Float (2 / 10))))]))
        (with_path fp (\<lambda>path.
           wbind (worker_load E t p ft path)
             (worker_analyse E t p (p_analysis_type p) path ft))))"
    by (simp add: worker_body_def Let_def fp_def ft_def)
  show ?thesis
  proof (cases fp)
    case None
    then show ?thesis
      by (simp add: wb wthen_def emit_def wbind_simps with_path_def m_run_def)
  next
    case (Some path)
    obtain acts fl where ld: "worker_load E t p ft path = (acts, fl)"
      by (cases "worker_load E t p ft path")
    from load_part [of t E p ft path] ld
    have q: "filter is_start acts = []"
      "(case fl of Return \<Rightarrow> fut0 acts = [m_bad t] | _ \<Rightarrow> fut0 acts = [])"
      by (simp_all add: part_ok_def split: flow.splits)
    show ?thesis
    proof (cases fl)
      case (Next ts0)
      obtain acts2 fl2 where an: "worker_analyse E t p (p_analysis_type p) path ft ts0 = (acts2, fl2)"
        by (cases "worker_analyse E t p (p_analysis_type p) path ft ts0")
      from analyse_part [of E t p "p_analysis_type p" path ft ts0] an
      have q2: "filter is_start acts2 = []"
        "(case fl2 of Return \<Rightarrow> fut0 acts2 = [m_bad t] | Raise e \<Rightarrow> fut0 acts2 = []
          | Next u \<Rightarrow> fut0 acts2 = [m_ok t])"
        by (simp_all split: flow.splits)
      have f: "worker_body E t p =
          ([SetTask t
               [(''status'', Val (PStr ''running'')), (''started_at'', NowIso),
                (''progress'', Val (PFloat (Float (1 / 10))))],
           SetTask t [(''progress'', Val (PFloat (Float (2 / 10))))]] @ acts @ acts2, fl2)"
        using Some ld Next an
        by (simp add: wb wthen_def emit_def wbind_simps with_path_def)
      from q q2 Next show ?thesis
        by (cases fl2) (simp_all add: f m_run_def)
    next
      case Return
      with Some ld q show ?thesis
        by (simp add: wb wthen_def emit_def wbind_simps with_path_def m_run_def)
    next
      case (Raise e)
      with Some ld q show ?thesis
        by (simp add: wb wthen_def emit_def wbind_simps with_path_def m_run_def)
    qed
  qed
qed

lemma worker_marks:
  "filter is_start (priv_analyze_file_worker E t p) = []
   \<and> (fut0 (priv_analyze_file_worker E t p) = [m_run t, m_ok t]
      \<or> fut0 (priv_analyze_file_worker E t p) = [m_run t, m_bad t])"
proof -
  obtain body ending where wb: "worker_body E t p = (body, ending)"
    by (cases "worker_body E t p")
  from body_marks [of E t p] wb show ?thesis
    by (cases ending) (simp_all add: priv_analyze_file_worker_def m_bad_def)
qed

subsection \<open>The status of a record after an operation\<close>

lemma resolve_res: "resolve E S (k, u) = (k, resolved E S u)"
  by (cases u) simp_all

lemma map_of_resolve:
  "map_of (map (resolve E S) ups) k = map_option (resolved E S) (map_of ups k)"
proof (induction ups)
  case Nil
  then show ?case by simp
next
  case (Cons x ups)
  obtain k' u where x: "x = (k', u)" by (cases x)
  with Cons show ?case by (simp add: resolve_res)
qed

lemma dict_update_lookup:
  "map_of (dict_update d ups) k =
     (case map_of (rev ups) k of None \<Rightarrow> map_of d k | Some v \<Rightarrow> Some v)"
proof (induction ups arbitrary: d)
  case Nil
  then show ?case by (simp add: dict_update_def)
next
  case (Cons u ups)
  obtain k' v' where u: "u = (k', v')" by (cases u)
  have "dict_update d (u # ups) = dict_update (AList.update k' v' d) ups"
    by (simp add: dict_update_def u)
  with Cons.IH [of "AList.update k' v' d"] show ?case
    by (auto simp: u update_conv' map_add_def split: option.splits)
qed

lemma status_of_alt:
  "status_of S t =
     (case map_of (TASKS S) t of None \<Rightarrow> None
      | Some a \<Rightarrow> (case heap S a of None \<Rightarrow> None | Some d \<Rightarrow> map_of d ''status''))"
  by (simp add: status_of_def task_field_def)

lemma status_None_iff:
  assumes "store_ok S"
  shows "(status_of S t = None) = (t \<notin> fst ` set (TASKS S))"
proof (cases "map_of (TASKS S) t")
  case None
  then have "t \<notin> fst ` set (TASKS S)" by (simp add: map_of_eq_None_iff)
  then show ?thesis by (simp add: status_of_alt None)
next
  case (Some a)
  then have m: "(t, a) \<in> set (TASKS S)" by (rule map_of_SomeD)
  with assms obtain d v where "heap S a = Some d" "map_of d ''status'' = Some v"
    unfolding store_ok_def by blast
  with Some m show ?thesis by (force simp: status_of_alt)
qed

lemma distinct_snd_update:
  "distinct (map snd al) \<Longrightarrow> v \<notin> snd ` set al \<Longrightarrow> distinct (map snd (AList.update k v al))"
  by (induction al) (auto dest!: update_memD)

lemma snd_inj:
  assumes "distinct (map snd al)" and "map_of al k = Some v" and "map_of al k' = Some v"
  shows "k = k'"
proof -
  from assms(2,3) have m: "(k, v) \<in> set al" "(k', v) \<in> set al" by (auto dest: map_of_SomeD)
  from assms(1) have "inj_on snd (set al)" by (simp add: distinct_map)
  from inj_onD [OF this _ m] show ?thesis by simp
qed

lemma create_status:
  assumes "store_ok S"
  shows "store_ok (priv_create_task E t ty ps S)"
    and "status_of (priv_create_task E t ty ps S) t = Some (PStr ''queued'')"
    and "t' \<noteq> t \<Longrightarrow> status_of (priv_create_task E t ty ps S) t' = status_of S t'"
    and "threads (priv_create_task E t ty ps S) = threads S"
proof -
  let ?n = "next_addr S"
  from assms have ok: "addrs_ok S" and d: "distinct (map snd (TASKS S))"
    and h: "\<forall>t a. (t, a) \<in> set (TASKS S) \<longrightarrow>
         (\<exists>d v. heap S a = Some d \<and> map_of d ''status'' = Some v)"
    by (simp_all add: store_ok_def)
  from ok have fresh: "?n \<notin> snd ` set (TASKS S)" by (fastforce simp: addrs_ok_def)
  have T: "TASKS (priv_create_task E t ty ps S) = AList.update t ?n (TASKS S)"
    and N: "next_addr (priv_create_task E t ty ps S) = Suc ?n"
    by (simp_all add: priv_create_task_def alloc_def)
  have H: "\<And>a. a \<noteq> ?n \<Longrightarrow> heap (priv_create_task E t ty ps S) a = heap S a"
    by (simp add: priv_create_task_def alloc_def)
  have Hn: "\<exists>d. heap (priv_create_task E t ty ps S) ?n = Some d
            \<and> map_of d ''status'' = Some (PStr ''queued'')"
    by (simp add: priv_create_task_def alloc_def)
  show "store_ok (priv_create_task E t ty ps S)"
    unfolding store_ok_def
  proof (intro conjI allI impI)
    show "addrs_ok (priv_create_task E t ty ps S)"
      using ok by (fastforce simp: addrs_ok_def T N dest!: update_memD)
    show "distinct (map snd (TASKS (priv_create_task E t ty ps S)))"
      unfolding T by (rule distinct_snd_update [OF d fresh])
  next
    fix t'' a assume "(t'', a) \<in> set (TASKS (priv_create_task E t ty ps S))"
    then have "a = ?n \<or> (t'', a) \<in> set (TASKS S)" unfolding T by (rule update_memD)
    then show "\<exists>d v. heap (priv_create_task E t ty ps S) a = Some d \<and> map_of d ''status'' = Some v"
    proof
      assume "a = ?n" with Hn show ?thesis by blast
    next
      assume m: "(t'', a) \<in> set (TASKS S)"
      with fresh have "a \<noteq> ?n" by force
      with H h m show ?thesis by simp
    qed
  qed
  show "status_of (priv_create_task E t ty ps S) t = Some (PStr ''queued'')"
    using Hn by (auto simp: status_of_alt T update_conv')
  show "threads (priv_create_task E t ty ps S) = threads S"
    by (simp add: priv_create_task_def alloc_def)
  show "status_of (priv_create_task E t ty ps S) t' = status_of S t'" if "t' \<noteq> t"
  proof (cases "map_of (TASKS S) t'")
    case None
    with that show ?thesis by (simp add: status_of_alt T update_conv')
  next
    case (Some a)
    then have "(t', a) \<in> set (TASKS S)" by (rule map_of_SomeD)
    with fresh have "a \<noteq> ?n" by force
    with that Some H show ?thesis by (simp add: status_of_alt T update_conv')
  qed
qed

lemma set_status:
  assumes "store_ok S"
  shows "store_ok (priv_set_task t ups S)"
    and "TASKS (priv_set_task t ups S) = TASKS S"
    and "threads (priv_set_task t ups S) = threads S"
    and "t' \<noteq> t \<Longrightarrow> status_of (priv_set_task t ups S) t' = status_of S t'"
    and "status_of (priv_set_task t ups S) t =
           (if status_of S t = None then None
            else (case map_of (rev ups) ''status'' of
                    None \<Rightarrow> status_of S t | Some v \<Rightarrow> Some v))"
proof -
  from assms have ok: "addrs_ok S" and d: "distinct (map snd (TASKS S))"
    and h: "\<forall>t a. (t, a) \<in> set (TASKS S) \<longrightarrow>
         (\<exists>d v. heap S a = Some d \<and> map_of d ''status'' = Some v)"
    by (simp_all add: store_ok_def)
  show T: "TASKS (priv_set_task t ups S) = TASKS S"
    by (simp add: priv_set_task_def split: option.splits)
  show "threads (priv_set_task t ups S) = threads S"
    by (simp add: priv_set_task_def split: option.splits)
  have N: "next_addr (priv_set_task t ups S) = next_addr S"
    by (simp add: priv_set_task_def split: option.splits)
  show "store_ok (priv_set_task t ups S)"
  proof (cases "map_of (TASKS S) t")
    case None
    with assms show ?thesis by (simp add: priv_set_task_def)
  next
    case (Some a)
    then have "(t, a) \<in> set (TASKS S)" by (rule map_of_SomeD)
    with h obtain d0 v0 where d0: "heap S a = Some d0" "map_of d0 ''status'' = Some v0" by blast
    have S': "priv_set_task t ups S = S\<lparr>heap := (heap S)(a \<mapsto> dict_update d0 ups)\<rparr>"
      using Some d0 by (simp add: priv_set_task_def)
    have st: "\<exists>v. map_of (dict_update d0 ups) ''status'' = Some v"
      using d0 by (simp add: dict_update_lookup split: option.splits)
    show ?thesis
      unfolding store_ok_def S'
      using ok d h st by (auto simp: addrs_ok_def)
  qed
  show "status_of (priv_set_task t ups S) t' = status_of S t'" if "t' \<noteq> t"
  proof (cases "map_of (TASKS S) t")
    case None
    then show ?thesis by (simp add: priv_set_task_def)
  next
    case (Some a)
    show ?thesis
    proof (cases "heap S a")
      case None
      with Some show ?thesis by (simp add: priv_set_task_def)
    next
      case d0: (Some d0)
      have S': "priv_set_task t ups S = S\<lparr>heap := (heap S)(a \<mapsto> dict_update d0 ups)\<rparr>"
        using Some d0 by (simp add: priv_set_task_def)
      show ?thesis
      proof (cases "map_of (TASKS S) t'")
        case None
        then show ?thesis by (simp add: status_of_alt S')
      next
        case a': (Some a')
        from snd_inj [OF d a' ] Some that have "a' \<noteq> a" by auto
        with a' show ?thesis by (simp add: status_of_alt S')
      qed
    qed
  qed
  show "status_of (priv_set_task t ups S) t =
           (if status_of S t = None then None
            else (case map_of (rev ups) ''status'' of
                    None \<Rightarrow> status_of S t | Some v \<Rightarrow> Some v))"
  proof (cases "map_of (TASKS S) t")
    case None
    then show ?thesis by (simp add: priv_set_task_def status_of_alt)
  next
    case (Some a)
    then have "(t, a) \<in> set (TASKS S)" by (rule map_of_SomeD)
    with h obtain d0 v0 where d0: "heap S a = Some d0" "map_of d0 ''status'' = Some v0" by blast
    have S': "priv_set_task t ups S = S\<lparr>heap := (heap S)(a \<mapsto> dict_update d0 ups)\<rparr>"
      using Some d0 by (simp add: priv_set_task_def)
    show ?thesis
      using Some d0 by (simp add: status_of_alt S' dict_update_lookup split: option.splits)
  qed
qed

lemma kept_status:
  assumes "TASKS S' = TASKS S" and "\<forall>x < next_addr S. heap S' x = heap S x"
    and "next_addr S \<le> next_addr S'" and "store_ok S"
  shows "store_ok S'" and "status_of S' t = status_of S t"
proof -
  from assms(4) have ok: "addrs_ok S" and d: "distinct (map snd (TASKS S))"
    and h: "\<forall>t a. (t, a) \<in> set (TASKS S) \<longrightarrow>
         (\<exists>d v. heap S a = Some d \<and> map_of d ''status'' = Some v)"
    by (simp_all add: store_ok_def)
  have lt: "\<And>t a. (t, a) \<in> set (TASKS S) \<Longrightarrow> a < next_addr S"
    using ok by (auto simp: addrs_ok_def)
  show "store_ok S'"
    unfolding store_ok_def
    using assms(1,2,3) d h lt by (fastforce simp: addrs_ok_def)
  show "status_of S' t = status_of S t"
  proof (cases "map_of (TASKS S) t")
    case None
    with assms(1) show ?thesis by (simp add: status_of_alt)
  next
    case (Some a)
    then have "a < next_addr S" using lt by (auto dest: map_of_SomeD)
    with assms(1,2) Some show ?thesis by (simp add: status_of_alt)
  qed
qed

lemma get_status:
  assumes "store_ok S"
  shows "store_ok (snd (priv_get_task t' S))"
    and "status_of (snd (priv_get_task t' S)) t = status_of S t"
    and "threads (snd (priv_get_task t' S)) = threads S"
proof -
  have 1: "TASKS (snd (priv_get_task t' S)) = TASKS S"
    and 2: "\<forall>x < next_addr S. heap (snd (priv_get_task t' S)) x = heap S x"
    and 3: "next_addr S \<le> next_addr (snd (priv_get_task t' S))"
    by (auto simp: priv_get_task_def alloc_def split: option.splits)
  from kept_status [OF 1 2 3 assms]
  show "store_ok (snd (priv_get_task t' S))"
    and "status_of (snd (priv_get_task t' S)) t = status_of S t" by auto
  show "threads (snd (priv_get_task t' S)) = threads S"
    by (auto simp: priv_get_task_def alloc_def split: option.splits)
qed

lemma list_status:
  assumes "store_ok S"
  shows "store_ok (snd (priv_list_tasks S))"
    and "status_of (snd (priv_list_tasks S)) t = status_of S t"
    and "threads (snd (priv_list_tasks S)) = threads S"
proof -
  obtain bs S2 where ca: "copy_all (map snd (TASKS S)) S = (bs, S2)"
    by (cases "copy_all (map snd (TASKS S)) S")
  then have s: "snd (priv_list_tasks S) = S2" by (simp add: priv_list_tasks_def)
  from copy_all_facts [OF ca] have 1: "TASKS S2 = TASKS S"
    and 2: "\<forall>x < next_addr S. heap S2 x = heap S x"
    and 3: "next_addr S \<le> next_addr S2" and 4: "threads S2 = threads S" by auto
  from kept_status [OF 1 2 3 assms] 4 s
  show "store_ok (snd (priv_list_tasks S))"
    and "status_of (snd (priv_list_tasks S)) t = status_of S t"
    and "threads (snd (priv_list_tasks S)) = threads S" by auto
qed

subsection \<open>Threads and their marks\<close>

lemma fut_no_start: "filter is_start acts = [] \<Longrightarrow> fut E acts = fut0 acts"
proof (induction acts)
  case Nil
  then show ?case by simp
next
  case (Cons a acts)
  then show ?case by (cases a) (simp_all split: if_splits)
qed

lemma quiet_no_start: "filter is_start acts = [] \<Longrightarrow> quiet_after_start E acts"
  by (induction acts) (simp_all split: if_splits)

lemma worker_fut:
  "fut E (priv_analyze_file_worker E t p) = [m_run t, m_ok t]
   \<or> fut E (priv_analyze_file_worker E t p) = [m_run t, m_bad t]"
  using worker_marks [of E t p] by (simp add: fut_no_start)

lemma worker_wf: "wf_thread E (t, priv_analyze_file_worker E t p)"
  using worker_fut [of E t p] worker_marks [of E t p]
  by (auto simp: wf_thread_def quiet_no_start m_run_def m_ok_def m_bad_def)

lemma params_rebuild [simp]:
  "\<lparr>p_csv = p_csv p, p_txt = p_txt p, p_timestamp_col = p_timestamp_col p,
    p_value_col = p_value_col p, p_delimiter = p_delimiter p, p_has_header = p_has_header p,
    p_regression = p_regression p, p_max_lags = p_max_lags p,
    p_lags_method = p_lags_method p, p_analysis_type = p_analysis_type p\<rparr> = p"
  by (cases p) simp

lemma lifetime_cases:
  "lifetime E t p = [(t, None), m_bad t]
   \<or> lifetime E t p = [(t, None), m_run t, m_ok t]
   \<or> lifetime E t p = [(t, None), m_run t, m_bad t]"
  using worker_marks [of E t p]
  by (auto simp: lifetime_def analyze_file_thread_def analyze_file_cases failed_update_def
        m_bad_def)

lemma handler_wf: "wf_thread E (analyze_file_thread E t p)"
proof -
  have f: "fut E (snd (analyze_file_thread E t p)) = lifetime E t p"
    by (simp add: lifetime_def)
  have 1: "\<forall>m \<in> set (fut E (snd (analyze_file_thread E t p))). fst m = t"
    unfolding f using lifetime_cases [of E t p]
    by (auto simp: m_run_def m_ok_def m_bad_def)
  have 2: "quiet_after_start E (snd (analyze_file_thread E t p))"
    by (simp add: analyze_file_thread_def analyze_file_cases)
  have 3: "fst (analyze_file_thread E t p) = t"
    by (simp add: analyze_file_thread_def)
  from 1 2 3 show ?thesis by (simp add: wf_thread_def)
qed

lemma wf_tail: "wf_thread E (t, a # rest) \<Longrightarrow> wf_thread E (t, rest)"
  by (simp add: wf_thread_def)

subsection \<open>Lists of threads\<close>

lemma pending_append [simp]:
  "pending_of E t (xs @ ys) = pending_of E t xs @ pending_of E t ys"
  by (simp add: pending_of_def)

lemma pending_split:
  "i < length ths \<Longrightarrow>
   pending_of E t ths =
     pending_of E t (take i ths) @ contrib E t (ths ! i) @ pending_of E t (drop (Suc i) ths)"
  using id_take_nth_drop [of i ths] by (simp add: pending_of_def) (metis concat.simps(2) concat_append list.simps(9) map_append)

lemma pending_update:
  "i < length ths \<Longrightarrow>
   pending_of E t (ths[i := th]) =
     pending_of E t (take i ths) @ contrib E t th @ pending_of E t (drop (Suc i) ths)"
  by (simp add: upd_conv_take_nth_drop pending_of_def)

lemma pending_pre:
  assumes "only_last E ths" and "i < length ths"
  shows "pending_of E (fst (ths ! i)) (take i ths) = []"
proof -
  have "contrib E (fst (ths ! i)) th = []" if "th \<in> set (take i ths)" for th
  proof -
    from that obtain k where k: "k < i" "k < length ths" "th = ths ! k"
      by (auto simp: in_set_conv_nth)
    show ?thesis
    proof (cases "fst th = fst (ths ! i)")
      case True
      with assms k show ?thesis by (auto simp: only_last_def contrib_def)
    next
      case False
      then show ?thesis by (simp add: contrib_def)
    qed
  qed
  then show ?thesis by (simp add: pending_of_def)
qed

lemma pending_post:
  assumes "only_last E ths" and "i < length ths" and "fut E (snd (ths ! i)) \<noteq> []"
  shows "pending_of E (fst (ths ! i)) (drop (Suc i) ths) = []"
proof -
  have "contrib E (fst (ths ! i)) th = []" if "th \<in> set (drop (Suc i) ths)" for th
  proof -
    from that obtain k where k: "th = ths ! (Suc i + k)" "Suc i + k < length ths"
      by (auto simp: in_set_conv_nth)
    show ?thesis
    proof (cases "fst th = fst (ths ! i)")
      case True
      with assms(1) k have "fut E (snd (ths ! i)) = []"
        unfolding only_last_def by (metis less_add_Suc1 add_Suc)
      with assms(3) show ?thesis by simp
    next
      case False
      then show ?thesis by (simp add: contrib_def)
    qed
  qed
  then show ?thesis by (simp add: pending_of_def)
qed

lemma pending_other:
  assumes "i < length ths" and "fst (ths ! i) \<noteq> t" and "fst th \<noteq> t"
  shows "pending_of E t (ths[i := th]) = pending_of E t ths"
  using assms pending_split [of i ths E t] pending_update [of i ths E t th]
  by (simp add: contrib_def)

lemma pending_none:
  assumes "t \<notin> fst ` set ths"
  shows "pending_of E t ths = []"
proof -
  have "contrib E t th = []" if "th \<in> set ths" for th
    using that assms by (auto simp: contrib_def)
  then show ?thesis by (simp add: pending_of_def)
qed

lemma fst_update:
  assumes "i < length ths" and "fst (ths ! i) = t"
  shows "map fst (ths[i := (t, rest)]) = map fst ths"
proof (rule nth_equalityI)
  show "length (map fst (ths[i := (t, rest)])) = length (map fst ths)" by simp
next
  fix k assume "k < length (map fst (ths[i := (t, rest)]))"
  then have k: "k < length ths" by simp
  show "map fst (ths[i := (t, rest)]) ! k = map fst ths ! k"
  proof (cases "k = i")
    case True
    with assms k show ?thesis by simp
  next
    case False
    with k show ?thesis by simp
  qed
qed

lemma only_last_update:
  assumes "only_last E ths" and "i < length ths" and "fst (ths ! i) = t"
    and "fut E (snd (ths ! i)) = [] \<longrightarrow> fut E rest = []"
  shows "only_last E (ths[i := (t, rest)])"
  unfolding only_last_def
proof (intro allI impI)
  fix i' j assume ij: "i' < j" "j < length (ths[i := (t, rest)])"
    and same: "fst (ths[i := (t, rest)] ! i') = fst (ths[i := (t, rest)] ! j)"
  have fs: "fst (ths[i := (t, rest)] ! k) = fst (ths ! k)" if "k < length ths" for k
  proof (cases "k = i")
    case True
    with assms(2,3) show ?thesis by simp
  next
    case False
    then show ?thesis by simp
  qed
  from ij have lt: "i' < length ths" "j < length ths" by simp_all
  from same fs lt have same': "fst (ths ! i') = fst (ths ! j)" by simp
  from assms(1) ij(1) lt(2) same' have e: "fut E (snd (ths ! i')) = []"
    unfolding only_last_def by blast
  show "fut E (snd (ths[i := (t, rest)] ! i')) = []"
  proof (cases "i' = i")
    case True
    with e assms(4) lt show ?thesis by simp
  next
    case False
    with e lt show ?thesis by simp
  qed
qed

subsection \<open>One operation\<close>

lemma call_ids_simps [simp]:
  "call_ids [] = []" "call_ids (evs @ [ev]) = call_ids evs @ call_id ev"
  by (simp_all add: call_ids_def)

lemma call_ids_mem: "(t \<in> set (call_ids evs)) = (\<exists>p. Call t p \<in> set evs)"
proof (induction evs)
  case Nil
  then show ?case by (simp add: call_ids_def)
next
  case (Cons ev evs)
  then show ?case by (cases ev) (auto simp: call_ids_def)
qed

lemma store_ok_fields [simp]:
  "store_ok (S\<lparr>threads := ths\<rparr>) = store_ok S"
  "store_ok (S\<lparr>TASKS_SEM := n\<rparr>) = store_ok S"
  "store_ok (S\<lparr>clock := c\<rparr>) = store_ok S"
  by (simp_all add: store_ok_def addrs_ok_def)

lemma status_of_fields [simp]:
  "status_of (S\<lparr>threads := ths\<rparr>) t = status_of S t"
  "status_of (S\<lparr>TASKS_SEM := n\<rparr>) t = status_of S t"
  "status_of (S\<lparr>clock := c\<rparr>) t = status_of S t"
  by (simp_all add: status_of_alt split: option.splits)

lemma eff_start_nonempty: "eff E (StartBackground t p) \<noteq> []"
  using worker_marks [of E t p] by auto

lemma rev_resolve_status:
  "map_of (rev (map (resolve E S) ups)) k = map_option (resolved E S) (map_of (rev ups) k)"
  by (simp add: rev_map map_of_resolve)

lemma do_action_quiet:
  assumes "store_ok S" and "do_action E a S = Some S1" and "eff E a = []"
  shows "store_ok S1 \<and> threads S1 = threads S \<and> (\<forall>t. status_of S1 t = status_of S t)"
proof (cases a)
  case (CreateTask t ty ps)
  with assms(3) show ?thesis by simp
next
  case (SetTask t ups)
  with assms(3) have n: "map_of (rev ups) ''status'' = None"
    by (simp split: option.splits)
  from SetTask assms(2) have S1: "S1 = priv_set_task t (map (resolve E S) ups) S" by simp
  have "status_of S1 t' = status_of S t'" for t'
  proof (cases "t' = t")
    case True
    then show ?thesis
      unfolding S1 using set_status(5) [OF assms(1), of t "map (resolve E S) ups"] n
      by (simp add: rev_resolve_status)
  next
    case False
    then show ?thesis unfolding S1 by (rule set_status(4) [OF assms(1)])
  qed
  with set_status(1,3) [OF assms(1), of t "map (resolve E S) ups"] S1 show ?thesis by simp
next
  case (GetTask t)
  with assms(2) have "S1 = snd (priv_get_task t S)" by simp
  with get_status [OF assms(1), of t] show ?thesis by simp
next
  case ListTasks
  with assms(2) have "S1 = snd (priv_list_tasks S)" by simp
  with list_status [OF assms(1)] show ?thesis by simp
next
  case (StartBackground t p)
  with assms(3) eff_start_nonempty [of E t p] show ?thesis by simp
next
  case Acquire
  with assms(1,2) show ?thesis by (auto split: if_splits)
next
  case Release
  with assms(1,2) show ?thesis by auto
next
  case (CallAdfuller c)
  with assms(1,2) show ?thesis by auto
next
  case Tick
  with assms(1,2) show ?thesis by auto
qed

lemma do_action_mark:
  assumes "store_ok S" and "do_action E a S = Some S1" and "eff E a = [(t, x)]"
    and "\<not> is_start a"
  shows "store_ok S1 \<and> threads S1 = threads S
       \<and> (\<forall>t'. t' \<noteq> t \<longrightarrow> status_of S1 t' = status_of S t')
       \<and> status_of S1 t =
           (case x of None \<Rightarrow> Some (PStr ''queued'')
            | Some u \<Rightarrow> (if status_of S t = None then None else Some (resolved E S u)))"
proof (cases a)
  case (CreateTask t0 ty ps)
  with assms(3) have tx: "t0 = t" "x = None" by simp_all
  from CreateTask assms(2) tx have S1: "S1 = priv_create_task E t ty ps S" by simp
  from create_status [OF assms(1)] show ?thesis
    unfolding S1 tx by simp
next
  case (SetTask t0 ups)
  show ?thesis
  proof (cases "map_of (rev ups) ''status''")
    case None
    with SetTask assms(3) show ?thesis by simp
  next
    case (Some u)
    with SetTask assms(3) have tx: "t0 = t" "x = Some u" by simp_all
    from SetTask assms(2) tx have S1: "S1 = priv_set_task t (map (resolve E S) ups) S" by simp
    from set_status(1,3,5) [OF assms(1), of t "map (resolve E S) ups"]
      set_status(4) [OF assms(1), of _ t "map (resolve E S) ups"] Some show ?thesis
      unfolding S1 tx(2) by (simp add: rev_resolve_status)
  qed
next
  case (GetTask t0)
  with assms(3) show ?thesis by simp
next
  case ListTasks
  with assms(3) show ?thesis by simp
next
  case (StartBackground t0 p)
  with assms(4) show ?thesis by simp
next
  case Acquire
  with assms(3) show ?thesis by simp
next
  case Release
  with assms(3) show ?thesis by simp
next
  case (CallAdfuller c)
  with assms(3) show ?thesis by simp
next
  case Tick
  with assms(3) show ?thesis by simp
qed

lemma eff_shape:
  "\<not> is_start a \<Longrightarrow> eff E a = [] \<or> (\<exists>t x. eff E a = [(t, x)])"
  by (cases a) (auto split: option.splits)

subsection \<open>Positions in a lifetime\<close>

lemma at_pos_step:
  assumes "at_pos L st (m # G)"
  shows "\<exists>k. k < length L \<and> L ! k = m \<and> G = drop (Suc k) L \<and> st = status_at L k"
proof -
  from assms obtain k where k: "k \<le> length L" "m # G = drop k L" "st = status_at L k"
    by (auto simp: at_pos_def)
  from k(2) have lt: "k < length L" by (cases "k < length L") auto
  from Cons_nth_drop_Suc [OF lt] k(2) have "L ! k # drop (Suc k) L = m # G" by simp
  then have "L ! k = m" "G = drop (Suc k) L" by simp_all
  with lt k(3) show ?thesis by blast
qed

lemma lifetime_marks:
  assumes "k < length (lifetime E t p)" and "lifetime E t p ! k = (t', x)"
  shows "t' = t"
    and "x = None \<Longrightarrow> status_at (lifetime E t p) (Suc k) = Some (PStr ''queued'')"
    and "x = Some u \<Longrightarrow>
           status_at (lifetime E t p) k \<noteq> None \<and>
           status_at (lifetime E t p) (Suc k) = Some (resolved E S u)"
proof -
  from assms(1) lifetime_cases [of E t p] have k3: "k = 0 \<or> k = 1 \<or> k = 2"
    by auto
  from lifetime_cases [of E t p] assms k3 show "t' = t"
    by (auto simp: m_run_def m_ok_def m_bad_def)
  from lifetime_cases [of E t p] assms k3
  show "status_at (lifetime E t p) (Suc k) = Some (PStr ''queued'')" if "x = None"
    using that by (auto simp: m_run_def m_ok_def m_bad_def status_at_def)
  from lifetime_cases [of E t p] assms k3
  show "status_at (lifetime E t p) k \<noteq> None \<and>
        status_at (lifetime E t p) (Suc k) = Some (resolved E S u)" if "x = Some u"
    using that by (auto simp: m_run_def m_ok_def m_bad_def status_at_def)
qed

subsection \<open>One event keeps the invariant\<close>

lemma inv_same:
  assumes "lifecycle_inv E evs S" and "store_ok S'" and "threads S' = threads S"
    and "\<forall>t. status_of S' t = status_of S t"
  shows "lifecycle_inv E evs S'"
  using assms by (simp add: lifecycle_inv_def)

lemma call_mem_snoc:
  "call_id ev = [] \<Longrightarrow> (Call t p \<in> set (evs @ [ev])) = (Call t p \<in> set evs)"
  by (cases ev) auto

lemma inv_more:
  assumes "lifecycle_inv E evs S" and "call_id ev = []"
  shows "lifecycle_inv E (evs @ [ev]) S"
  using assms by (cases ev) (auto simp: lifecycle_inv_def)

lemma moved_same: "\<forall>t. status_of S' t = status_of S t \<Longrightarrow> status_moved E evs S S'"
  by (simp add: status_moved_def)

lemma moved_more: "status_moved E evs S S' \<Longrightarrow> status_moved E (evs @ [ev]) S S'"
  unfolding status_moved_def by (metis Un_iff set_append)

lemma pending_same:
  assumes "i < length ths" and "ths ! i = (t, acts)" and "fut E acts' = fut E acts"
  shows "pending_of E t' (ths[i := (t, acts')]) = pending_of E t' ths"
  using assms pending_split [of i ths E t'] pending_update [of i ths E t' "(t, acts')"]
  by (simp add: contrib_def)

lemma at_pos_start: "at_pos L None L"
  unfolding at_pos_def by (rule exI [of _ 0]) (simp add: status_at_def)

lemma thread_fst [simp]: "fst (analyze_file_thread E t p) = t"
  by (simp add: analyze_file_thread_def)

lemma step_call:
  assumes "lifecycle_inv E evs S" and "t \<notin> set (call_ids evs)"
  shows "lifecycle_inv E (evs @ [Call t p]) (step E (Call t p) S)"
    and "status_moved E (evs @ [Call t p]) S (step E (Call t p) S)"
proof -
  let ?th = "analyze_file_thread E t p"
  let ?S = "step E (Call t p) S"
  have th: "threads ?S = threads S @ [?th]" by simp
  have st: "status_of ?S t' = status_of S t'" for t' by simp
  from assms(1) have ok: "store_ok S" and wf: "\<forall>th \<in> set (threads S). wf_thread E th"
    and ol: "only_last E (threads S)"
    and fr: "\<forall>t. t \<notin> set (call_ids evs) \<longrightarrow>
               t \<notin> fst ` set (threads S) \<and> status_of S t = None"
    and ap: "\<forall>t p. Call t p \<in> set evs \<longrightarrow>
               at_pos (lifetime E t p) (status_of S t) (pending_of E t (threads S))"
    by (simp_all add: lifecycle_inv_def)
  from fr assms(2) have new: "t \<notin> fst ` set (threads S)" "status_of S t = None" by simp_all
  have 1: "store_ok ?S" using ok by simp
  have 2: "\<forall>th \<in> set (threads ?S). wf_thread E th"
    unfolding th using wf handler_wf [of E t p] by simp
  have 3: "only_last E (threads ?S)"
    unfolding th only_last_def
  proof (intro allI impI)
    fix i j assume ij: "i < j" "j < length (threads S @ [?th])"
      and same: "fst ((threads S @ [?th]) ! i) = fst ((threads S @ [?th]) ! j)"
    from ij have i: "i < length (threads S)" by simp
    show "fut E (snd ((threads S @ [?th]) ! i)) = []"
    proof (cases "j < length (threads S)")
      case True
      with ol ij(1) same i show ?thesis by (simp add: only_last_def nth_append)
    next
      case False
      with ij(2) have "j = length (threads S)" by simp
      with same i have "fst (threads S ! i) = t" by (simp add: nth_append)
      with i new(1) show ?thesis by (metis image_eqI nth_mem)
    qed
  qed
  have 4: "\<forall>t'. t' \<notin> set (call_ids (evs @ [Call t p])) \<longrightarrow>
             t' \<notin> fst ` set (threads ?S) \<and> status_of ?S t' = None"
    unfolding th using fr by (simp add: st)
  have 5: "\<forall>t' p'. Call t' p' \<in> set (evs @ [Call t p]) \<longrightarrow>
             at_pos (lifetime E t' p') (status_of ?S t') (pending_of E t' (threads ?S))"
  proof (intro allI impI)
    fix t' p' assume m: "Call t' p' \<in> set (evs @ [Call t p])"
    show "at_pos (lifetime E t' p') (status_of ?S t') (pending_of E t' (threads ?S))"
    proof (cases "Call t' p' \<in> set evs")
      case True
      then have "t' \<in> set (call_ids evs)" by (auto simp: call_ids_mem)
      with assms(2) have ne: "t' \<noteq> t" by auto
      then have "pending_of E t' (threads ?S) = pending_of E t' (threads S)"
        unfolding th by (simp add: pending_of_def contrib_def)
      with ap True show ?thesis by (simp add: st)
    next
      case False
      with m have e: "t' = t" "p' = p" by simp_all
      have "pending_of E t (threads ?S) = lifetime E t p"
        unfolding th using pending_none [OF new(1), of E]
        by (simp add: pending_of_def contrib_def lifetime_def)
      with new(2) show ?thesis unfolding e by (simp add: st at_pos_start)
    qed
  qed
  from 1 2 3 4 5 show "lifecycle_inv E (evs @ [Call t p]) ?S" unfolding lifecycle_inv_def by blast
  show "status_moved E (evs @ [Call t p]) S ?S" by (rule moved_same) (simp add: st)
qed

lemma client_quiet: "server_event (Req a) \<Longrightarrow> eff E a = []"
  by (cases a) simp_all

lemma step_req:
  assumes "lifecycle_inv E evs S" and "server_event (Req a)"
  shows "lifecycle_inv E (evs @ [Req a]) (step E (Req a) S)"
    and "status_moved E (evs @ [Req a]) S (step E (Req a) S)"
proof -
  have q: "store_ok (step E (Req a) S) \<and> threads (step E (Req a) S) = threads S
           \<and> (\<forall>t. status_of (step E (Req a) S) t = status_of S t)"
  proof (cases "do_action E a S")
    case None
    with assms(1) show ?thesis by (simp add: lifecycle_inv_def)
  next
    case (Some S1)
    from assms(1) have "store_ok S" by (simp add: lifecycle_inv_def)
    from do_action_quiet [OF this Some client_quiet [OF assms(2)]] Some show ?thesis by simp
  qed
  then have "lifecycle_inv E evs (step E (Req a) S)" using inv_same [OF assms(1)] by blast
  then show "lifecycle_inv E (evs @ [Req a]) (step E (Req a) S)" by (rule inv_more) simp
  from q show "status_moved E (evs @ [Req a]) S (step E (Req a) S)" by (intro moved_same) simp
qed

lemma wf_update:
  assumes "\<forall>th \<in> set ths. wf_thread E th" and "i < length ths" and "ths ! i = (t, a # rest)"
  shows "\<forall>th \<in> set (ths[i := (t, rest)]). wf_thread E th"
proof
  fix th assume "th \<in> set (ths[i := (t, rest)])"
  then have "th = (t, rest) \<or> th \<in> set ths"
    using set_update_subset_insert [of ths i "(t, rest)"] by auto
  moreover from assms have "wf_thread E (t, a # rest)" by (metis nth_mem)
  then have "wf_thread E (t, rest)" by (rule wf_tail)
  ultimately show "wf_thread E th" using assms(1) by auto
qed

lemma fst_set_update:
  assumes "i < length ths" and "fst (ths ! i) = t"
  shows "fst ` set (ths[i := (t, rest)]) = fst ` set ths"
proof -
  have "set (map fst (ths[i := (t, rest)])) = set (map fst ths)"
    by (simp only: fst_update [OF assms])
  then show ?thesis by simp
qed

lemma run_quiet:
  assumes "lifecycle_inv E evs S" and "i < length (threads S)" and "threads S ! i = (t, a # rest)"
    and "do_action E a S = Some S1" and "eff E a = []"
  shows "lifecycle_inv E evs (S1\<lparr>threads := (threads S1)[i := (t, rest)]\<rparr>)"
    and "status_moved E evs S (S1\<lparr>threads := (threads S1)[i := (t, rest)]\<rparr>)"
proof -
  define S' where "S' = S1\<lparr>threads := (threads S1)[i := (t, rest)]\<rparr>"
  from assms(1) have ok: "store_ok S" and wf: "\<forall>th \<in> set (threads S). wf_thread E th"
    and ol: "only_last E (threads S)"
    and fr: "\<forall>t. t \<notin> set (call_ids evs) \<longrightarrow>
               t \<notin> fst ` set (threads S) \<and> status_of S t = None"
    and ap: "\<forall>t p. Call t p \<in> set evs \<longrightarrow>
               at_pos (lifetime E t p) (status_of S t) (pending_of E t (threads S))"
    by (simp_all add: lifecycle_inv_def)
  from do_action_quiet [OF ok assms(4,5)]
  have ok1: "store_ok S1" and th1: "threads S1 = threads S"
    and st1: "\<And>t. status_of S1 t = status_of S t" by simp_all
  have th: "threads S' = (threads S)[i := (t, rest)]" by (simp add: S'_def th1)
  have st: "status_of S' t' = status_of S t'" for t' by (simp add: S'_def st1)
  from assms(3) have fi: "fst (threads S ! i) = t" by simp
  have 1: "store_ok S'" using ok1 by (simp add: S'_def)
  have 2: "\<forall>th \<in> set (threads S'). wf_thread E th"
    unfolding th by (rule wf_update [OF wf assms(2,3)])
  have 3: "only_last E (threads S')"
    unfolding th by (rule only_last_update [OF ol assms(2) fi]) (simp add: assms(3,5))
  have 4: "\<forall>t'. t' \<notin> set (call_ids evs) \<longrightarrow>
             t' \<notin> fst ` set (threads S') \<and> status_of S' t' = None"
    unfolding th fst_set_update [OF assms(2) fi] st using fr by simp
  have pe: "pending_of E t' (threads S') = pending_of E t' (threads S)" for t'
    unfolding th by (rule pending_same [OF assms(2,3)]) (simp add: assms(5))
  have 5: "\<forall>t' p'. Call t' p' \<in> set evs \<longrightarrow>
             at_pos (lifetime E t' p') (status_of S' t') (pending_of E t' (threads S'))"
    unfolding st pe using ap by simp
  from 1 2 3 4 5 have "lifecycle_inv E evs S'" unfolding lifecycle_inv_def by blast
  then show "lifecycle_inv E evs (S1\<lparr>threads := (threads S1)[i := (t, rest)]\<rparr>)"
    by (simp only: S'_def)
  have "status_moved E evs S S'" by (rule moved_same) (simp add: st)
  then show "status_moved E evs S (S1\<lparr>threads := (threads S1)[i := (t, rest)]\<rparr>)"
    by (simp only: S'_def)
qed

lemma run_mark:
  assumes "lifecycle_inv E evs S" and "i < length (threads S)" and "threads S ! i = (t, a # rest)"
    and "do_action E a S = Some S1" and "eff E a = [(t0, x)]" and "\<not> is_start a"
  shows "lifecycle_inv E evs (S1\<lparr>threads := (threads S1)[i := (t, rest)]\<rparr>)"
    and "status_moved E evs S (S1\<lparr>threads := (threads S1)[i := (t, rest)]\<rparr>)"
proof -
  define S' where "S' = S1\<lparr>threads := (threads S1)[i := (t, rest)]\<rparr>"
  from assms(1) have ok: "store_ok S" and wf: "\<forall>th \<in> set (threads S). wf_thread E th"
    and ol: "only_last E (threads S)"
    and fr: "\<forall>t. t \<notin> set (call_ids evs) \<longrightarrow>
               t \<notin> fst ` set (threads S) \<and> status_of S t = None"
    and ap: "\<forall>t p. Call t p \<in> set evs \<longrightarrow>
               at_pos (lifetime E t p) (status_of S t) (pending_of E t (threads S))"
    by (simp_all add: lifecycle_inv_def)
  from assms(3) have fi: "fst (threads S ! i) = t" by simp
  from wf assms(2,3) have wfi: "wf_thread E (t, a # rest)" by (metis nth_mem)
  with assms(5) have t0: "t0 = t" by (simp add: wf_thread_def)
  from do_action_mark [OF ok assms(4) assms(5) [unfolded t0] assms(6)]
  have ok1: "store_ok S1" and th1: "threads S1 = threads S"
    and so: "\<And>t'. t' \<noteq> t \<Longrightarrow> status_of S1 t' = status_of S t'"
    and sn: "status_of S1 t =
           (case x of None \<Rightarrow> Some (PStr ''queued'')
            | Some u \<Rightarrow> (if status_of S t = None then None else Some (resolved E S u)))"
    by simp_all
  have th: "threads S' = (threads S)[i := (t, rest)]" by (simp add: S'_def th1)
  have st: "status_of S' t' = status_of S1 t'" for t' by (simp add: S'_def)
  have fu: "fut E (snd (threads S ! i)) = (t, x) # fut E rest"
    by (simp add: assms(3,5) t0)
  then have ne: "fut E (snd (threads S ! i)) \<noteq> []" by simp
  from pending_pre [OF ol assms(2)] fi
  have pre: "pending_of E t (take i (threads S)) = []" by simp
  from pending_post [OF ol assms(2) ne] fi
  have post: "pending_of E t (drop (Suc i) (threads S)) = []" by simp
  have pold: "pending_of E t (threads S) = (t, x) # fut E rest"
    using pending_split [OF assms(2), of E t] pre post fu fi by (simp add: contrib_def)
  have pnew: "pending_of E t (threads S') = fut E rest"
    unfolding th using pending_update [OF assms(2), of E t "(t, rest)"] pre post
    by (simp add: contrib_def)
  have poth: "pending_of E t' (threads S') = pending_of E t' (threads S)" if "t' \<noteq> t" for t'
    unfolding th by (rule pending_other [OF assms(2)]) (use that fi in simp_all)
  have tin: "t \<in> fst ` set (threads S)" using assms(2) fi by (metis image_eqI nth_mem)
  have step: "\<exists>k. k < length (lifetime E t p) \<and> status_of S t = status_at (lifetime E t p) k
                \<and> status_of S1 t = status_at (lifetime E t p) (Suc k)
                \<and> fut E rest = drop (Suc k) (lifetime E t p)"
    if c: "Call t p \<in> set evs" for p
  proof -
    from ap c have "at_pos (lifetime E t p) (status_of S t) (pending_of E t (threads S))"
      by blast
    then have "at_pos (lifetime E t p) (status_of S t) ((t, x) # fut E rest)"
      unfolding pold .
    from at_pos_step [OF this] obtain k where k: "k < length (lifetime E t p)"
      "lifetime E t p ! k = (t, x)" "fut E rest = drop (Suc k) (lifetime E t p)"
      "status_of S t = status_at (lifetime E t p) k" by blast
    have "status_of S1 t = status_at (lifetime E t p) (Suc k)"
    proof (cases x)
      case None
      with lifetime_marks(2) [OF k(1,2)] sn show ?thesis by simp
    next
      case (Some u)
      with lifetime_marks(3) [OF k(1,2), of u S] sn k(4) show ?thesis by simp
    qed
    with k show ?thesis by blast
  qed
  have 1: "store_ok S'" using ok1 by (simp add: S'_def)
  have 2: "\<forall>th \<in> set (threads S'). wf_thread E th"
    unfolding th by (rule wf_update [OF wf assms(2,3)])
  have 3: "only_last E (threads S')"
    unfolding th by (rule only_last_update [OF ol assms(2) fi]) (simp add: ne)
  have 4: "\<forall>t'. t' \<notin> set (call_ids evs) \<longrightarrow>
             t' \<notin> fst ` set (threads S') \<and> status_of S' t' = None"
  proof (intro allI impI)
    fix t' assume n: "t' \<notin> set (call_ids evs)"
    with fr have a: "t' \<notin> fst ` set (threads S)" "status_of S t' = None" by simp_all
    with tin have "t' \<noteq> t" by auto
    with a so [of t'] show "t' \<notin> fst ` set (threads S') \<and> status_of S' t' = None"
      unfolding th fst_set_update [OF assms(2) fi] st by simp
  qed
  have 5: "\<forall>t' p'. Call t' p' \<in> set evs \<longrightarrow>
             at_pos (lifetime E t' p') (status_of S' t') (pending_of E t' (threads S'))"
  proof (intro allI impI)
    fix t' p' assume c: "Call t' p' \<in> set evs"
    show "at_pos (lifetime E t' p') (status_of S' t') (pending_of E t' (threads S'))"
    proof (cases "t' = t")
      case False
      with ap c show ?thesis by (simp add: st so poth)
    next
      case True
      from step [of p'] c True obtain k where k: "k < length (lifetime E t p')"
        "status_of S1 t = status_at (lifetime E t p') (Suc k)"
        "fut E rest = drop (Suc k) (lifetime E t p')" by blast
      have "at_pos (lifetime E t p') (status_of S1 t) (fut E rest)"
        unfolding at_pos_def by (rule exI [of _ "Suc k"]) (use k in simp)
      then show ?thesis unfolding True st pnew .
    qed
  qed
  from 1 2 3 4 5 have "lifecycle_inv E evs S'" unfolding lifecycle_inv_def by blast
  then show "lifecycle_inv E evs (S1\<lparr>threads := (threads S1)[i := (t, rest)]\<rparr>)"
    by (simp only: S'_def)
  have "status_moved E evs S S'"
    unfolding status_moved_def
  proof
    fix t'
    show "status_of S' t' = status_of S t' \<or>
          (\<exists>p k. Call t' p \<in> set evs \<and> k < length (lifetime E t' p)
                 \<and> status_of S t' = status_at (lifetime E t' p) k
                 \<and> status_of S' t' = status_at (lifetime E t' p) (Suc k))"
    proof (cases "t' = t")
      case False
      then show ?thesis by (simp add: st so)
    next
      case True
      from fr tin have "t \<in> set (call_ids evs)" by blast
      then obtain p where c: "Call t p \<in> set evs" by (auto simp: call_ids_mem)
      from step [OF c] c show ?thesis unfolding True st by blast
    qed
  qed
  then show "status_moved E evs S (S1\<lparr>threads := (threads S1)[i := (t, rest)]\<rparr>)"
    by (simp only: S'_def)
qed

lemma run_start:
  assumes "lifecycle_inv E evs S" and "i < length (threads S)"
    and "threads S ! i = (t, StartBackground t0 p0 # rest)"
    and "do_action E (StartBackground t0 p0) S = Some S1"
  shows "lifecycle_inv E evs (S1\<lparr>threads := (threads S1)[i := (t, rest)]\<rparr>)"
    and "status_moved E evs S (S1\<lparr>threads := (threads S1)[i := (t, rest)]\<rparr>)"
proof -
  define S' where "S' = S1\<lparr>threads := (threads S1)[i := (t, rest)]\<rparr>"
  define w where "w = priv_analyze_file_worker E t0 p0"
  from assms(1) have ok: "store_ok S" and wf: "\<forall>th \<in> set (threads S). wf_thread E th"
    and ol: "only_last E (threads S)"
    and fr: "\<forall>t. t \<notin> set (call_ids evs) \<longrightarrow>
               t \<notin> fst ` set (threads S) \<and> status_of S t = None"
    and ap: "\<forall>t p. Call t p \<in> set evs \<longrightarrow>
               at_pos (lifetime E t p) (status_of S t) (pending_of E t (threads S))"
    by (simp_all add: lifecycle_inv_def)
  from assms(3) have fi: "fst (threads S ! i) = t" by simp
  from wf assms(2,3) have wfi: "wf_thread E (t, StartBackground t0 p0 # rest)"
    by (metis nth_mem)
  have fw: "fut E w = fut0 w" "fut0 w \<noteq> []" "m_run t0 \<in> set (fut0 w)"
    using worker_marks [of E t0 p0] by (auto simp: w_def fut_no_start)
  from wfi have "\<forall>m \<in> set (fut0 w). fst m = t" by (simp add: wf_thread_def w_def)
  with fw(3) have "fst (m_run t0) = t" by blast
  then have t0: "t0 = t" by (simp add: m_run_def)
  from wfi have q: "fut E rest = []" by (simp add: wf_thread_def)
  from assms(4) have S1: "S1 = S\<lparr>threads := threads S @ [(t, w)]\<rparr>"
    by (simp add: priv_start_background_def w_def t0)
  have th: "threads S' = (threads S)[i := (t, rest)] @ [(t, w)]"
    by (simp add: S'_def S1 list_update_append1 [OF assms(2)])
  have st: "status_of S' t' = status_of S t'" for t' by (simp add: S'_def S1)
  have fu: "fut E (snd (threads S ! i)) = fut0 w" by (simp add: assms(3) q w_def)
  with fw(2) have ne: "fut E (snd (threads S ! i)) \<noteq> []" by simp
  from pending_pre [OF ol assms(2)] fi
  have pre: "pending_of E t (take i (threads S)) = []" by simp
  from pending_post [OF ol assms(2) ne] fi
  have post: "pending_of E t (drop (Suc i) (threads S)) = []" by simp
  have pold: "pending_of E t (threads S) = fut0 w"
    using pending_split [OF assms(2), of E t] pre post fu fi by (simp add: contrib_def)
  have single: "pending_of E t' [(t, w)] = (if t = t' then fut0 w else [])" for t'
    by (simp add: pending_of_def contrib_def fw(1))
  have upd: "pending_of E t ((threads S)[i := (t, rest)]) = []"
    using pending_update [OF assms(2), of E t "(t, rest)"] pre post q
    by (simp add: contrib_def)
  have pnew: "pending_of E t (threads S') = fut0 w"
    unfolding th pending_append upd single by simp
  have poth: "pending_of E t' (threads S') = pending_of E t' (threads S)" if "t' \<noteq> t" for t'
  proof -
    have "pending_of E t' ((threads S)[i := (t, rest)]) = pending_of E t' (threads S)"
      by (rule pending_other [OF assms(2)]) (use that fi in simp_all)
    with that show ?thesis unfolding th pending_append single by simp
  qed
  have pe: "pending_of E t' (threads S') = pending_of E t' (threads S)" for t'
    using poth [of t'] pold pnew by (cases "t' = t") simp_all
  have fs: "fst ` set (threads S') = fst ` set (threads S)"
  proof -
    have "fst ` set (threads S') = insert t (fst ` set ((threads S)[i := (t, rest)]))"
      unfolding th by simp
    also have "\<dots> = insert t (fst ` set (threads S))"
      by (simp only: fst_set_update [OF assms(2) fi])
    also have "\<dots> = fst ` set (threads S)"
    proof -
      have "t \<in> fst ` set (threads S)" using assms(2) fi by (metis image_eqI nth_mem)
      then show ?thesis by (rule insert_absorb)
    qed
    finally show ?thesis .
  qed
  have 1: "store_ok S'" using ok by (simp add: S'_def S1)
  have 2: "\<forall>th \<in> set (threads S'). wf_thread E th"
    unfolding th using wf_update [OF wf assms(2,3)] worker_wf [of E t0 p0]
    by (simp add: w_def t0)
  have ol1: "only_last E ((threads S)[i := (t, rest)])"
    by (rule only_last_update [OF ol assms(2) fi]) (simp add: ne)
  have olD: "fut E (snd (threads S ! a)) = []"
    if "a < b" and "b < length (threads S)" and "fst (threads S ! a) = fst (threads S ! b)"
    for a b
    using ol that unfolding only_last_def by simp
  have 3: "only_last E (threads S')"
    unfolding th only_last_def
  proof (intro allI impI)
    let ?ths = "(threads S)[i := (t, rest)]"
    fix i' j assume ij: "i' < j" "j < length (?ths @ [(t, w)])"
      and same: "fst ((?ths @ [(t, w)]) ! i') = fst ((?ths @ [(t, w)]) ! j)"
    from ij have i': "i' < length (threads S)" by simp
    show "fut E (snd ((?ths @ [(t, w)]) ! i')) = []"
    proof (cases "j < length (threads S)")
      case True
      with ol1 ij(1) same i' show ?thesis by (simp add: only_last_def nth_append)
    next
      case False
      with ij(2) have "j = length ?ths" by simp
      with same i' have ft: "fst (?ths ! i') = t" by (simp add: nth_append)
      show ?thesis
      proof (cases "i' = i")
        case True
        with i' q show ?thesis by (simp add: nth_append)
      next
        case ni: False
        with ft have ft': "fst (threads S ! i') = t" by simp
        have "fut E (snd (threads S ! i')) = []"
        proof (cases "i' < i")
          case True
          show ?thesis by (rule olD [OF True assms(2)]) (simp add: ft' fi)
        next
          case False
          with ni have "i < i'" by simp
          then have "fut E (snd (threads S ! i)) = []"
            by (rule olD [OF _ i']) (simp add: ft' fi)
          with ne show ?thesis by simp
        qed
        with ni i' show ?thesis by (simp add: nth_append)
      qed
    qed
  qed
  have 4: "\<forall>t'. t' \<notin> set (call_ids evs) \<longrightarrow>
             t' \<notin> fst ` set (threads S') \<and> status_of S' t' = None"
    unfolding fs st using fr by simp
  have 5: "\<forall>t' p'. Call t' p' \<in> set evs \<longrightarrow>
             at_pos (lifetime E t' p') (status_of S' t') (pending_of E t' (threads S'))"
    unfolding st pe using ap by simp
  from 1 2 3 4 5 have "lifecycle_inv E evs S'" unfolding lifecycle_inv_def by blast
  then show "lifecycle_inv E evs (S1\<lparr>threads := (threads S1)[i := (t, rest)]\<rparr>)"
    by (simp only: S'_def)
  have "status_moved E evs S S'" by (rule moved_same) (simp add: st)
  then show "status_moved E evs S (S1\<lparr>threads := (threads S1)[i := (t, rest)]\<rparr>)"
    by (simp only: S'_def)
qed

lemma run_action:
  assumes "lifecycle_inv E evs S" and "i < length (threads S)" and "threads S ! i = (t, a # rest)"
    and "do_action E a S = Some S1"
  shows "lifecycle_inv E evs (S1\<lparr>threads := (threads S1)[i := (t, rest)]\<rparr>)
       \<and> status_moved E evs S (S1\<lparr>threads := (threads S1)[i := (t, rest)]\<rparr>)"
proof (cases "is_start a")
  case True
  then obtain t0 p0 where a: "a = StartBackground t0 p0" by (cases a) simp_all
  from run_start [OF assms(1,2) assms(3) [unfolded a] assms(4) [unfolded a]]
  show ?thesis by simp
next
  case False
  from eff_shape [OF False, of E] show ?thesis
  proof
    assume "eff E a = []"
    from run_quiet [OF assms this] show ?thesis by simp
  next
    assume "\<exists>t x. eff E a = [(t, x)]"
    then obtain t0 x where "eff E a = [(t0, x)]" by blast
    from run_mark [OF assms this False] show ?thesis by simp
  qed
qed

lemma step_run:
  assumes "lifecycle_inv E evs S"
  shows "lifecycle_inv E (evs @ [Run i]) (step E (Run i) S)"
    and "status_moved E (evs @ [Run i]) S (step E (Run i) S)"
proof -
  have "lifecycle_inv E evs (step E (Run i) S) \<and> status_moved E evs S (step E (Run i) S)"
  proof (cases "i < length (threads S)")
    case False
    with assms show ?thesis by (simp add: moved_same)
  next
    case True
    obtain t acts where th: "threads S ! i = (t, acts)" by (cases "threads S ! i")
    show ?thesis
    proof (cases acts)
      case Nil
      with True th assms show ?thesis by (simp add: moved_same)
    next
      case (Cons a rest)
      show ?thesis
      proof (cases "do_action E a S")
        case None
        with True th Cons assms show ?thesis by (simp add: moved_same)
      next
        case (Some S1)
        from run_action [OF assms True th [unfolded Cons] Some] True th Cons Some
        show ?thesis by simp
      qed
    qed
  qed
  then show "lifecycle_inv E (evs @ [Run i]) (step E (Run i) S)"
    and "status_moved E (evs @ [Run i]) S (step E (Run i) S)"
    by (simp_all add: inv_more moved_more)
qed

lemma step_inv:
  assumes "lifecycle_inv E evs S" and "server_event ev" and "distinct (call_ids (evs @ [ev]))"
  shows "lifecycle_inv E (evs @ [ev]) (step E ev S) \<and> status_moved E (evs @ [ev]) S (step E ev S)"
proof (cases ev)
  case (Call t p)
  with assms(3) have "t \<notin> set (call_ids evs)" by simp
  from step_call [OF assms(1) this, of p] Call show ?thesis by simp
next
  case (Run i)
  from step_run [OF assms(1), of i] Run show ?thesis by simp
next
  case (Req a)
  from step_req [OF assms(1) assms(2) [unfolded Req]] Req show ?thesis by simp
qed

subsection \<open>Runs\<close>

lemma init_inv: "lifecycle_inv E [] (init_server getenv)"
  by (simp add: lifecycle_inv_def init_server_def store_ok_def addrs_ok_def only_last_def
        status_of_alt pending_of_def)

lemma exec_snoc: "exec E (evs @ [ev]) S = step E ev (exec E evs S)"
  by (simp add: exec_def)

lemma exec_inv:
  "list_all server_event evs \<Longrightarrow> distinct (call_ids evs) \<Longrightarrow>
   lifecycle_inv E evs (exec E evs (init_server getenv))"
proof (induction evs rule: rev_induct)
  case Nil
  show ?case by (simp add: exec_def init_inv)
next
  case (snoc ev evs)
  from snoc.prems have c: "list_all server_event evs" "server_event ev"
    and d: "distinct (call_ids evs)" by simp_all
  from step_inv [OF snoc.IH [OF c(1) d] c(2) snoc.prems(2)]
  show ?case by (simp add: exec_snoc)
qed

lemma exec_moved:
  assumes "list_all server_event (evs @ [ev])" and "distinct (call_ids (evs @ [ev]))"
  shows "status_moved E (evs @ [ev]) (exec E evs (init_server getenv))
           (exec E (evs @ [ev]) (init_server getenv))"
proof -
  from assms have c: "list_all server_event evs" "server_event ev"
    and d: "distinct (call_ids evs)" by simp_all
  from step_inv [OF exec_inv [OF c(1) d] c(2) assms(2)]
  show ?thesis by (simp add: exec_snoc)
qed

subsection \<open>Transitions and histories\<close>

lemma status_at_simps:
  "status_at L 0 = None" "status_at (m # L) (Suc k) = (if k = 0 then mark_value m else status_at L k)"
  by (cases k; simp add: status_at_def)+

lemma moved_transition:
  assumes "status_moved E evs S S'"
  shows "status_of S' t = status_of S t \<or> transition (status_of S t) (status_of S' t)"
proof -
  from assms have "status_of S' t = status_of S t \<or>
          (\<exists>p k. Call t p \<in> set evs \<and> k < length (lifetime E t p)
                 \<and> status_of S t = status_at (lifetime E t p) k
                 \<and> status_of S' t = status_at (lifetime E t p) (Suc k))"
    by (simp add: status_moved_def)
  then show ?thesis
  proof
    assume "status_of S' t = status_of S t" then show ?thesis by simp
  next
    assume "\<exists>p k. Call t p \<in> set evs \<and> k < length (lifetime E t p)
                 \<and> status_of S t = status_at (lifetime E t p) k
                 \<and> status_of S' t = status_at (lifetime E t p) (Suc k)"
    then obtain p k where k: "k < length (lifetime E t p)"
      "status_of S t = status_at (lifetime E t p) k"
      "status_of S' t = status_at (lifetime E t p) (Suc k)" by blast
    from k(1) lifetime_cases [of E t p] have k3: "k = 0 \<or> k = 1 \<or> k = 2" by auto
    have "transition (status_at (lifetime E t p) k) (status_at (lifetime E t p) (Suc k))"
      using lifetime_cases [of E t p] k(1) k3
      by (auto simp: status_at_def transition_def m_run_def m_ok_def m_bad_def)
    with k show ?thesis by simp
  qed
qed

lemma moved_rejected:
  assumes "status_moved E evs S S'" and "status_of S t = Some (PStr ''queued'')"
    and "status_of S' t = Some (PStr ''failed'')"
  shows "\<exists>p. Call t p \<in> set evs \<and> lifetime E t p = [(t, None), m_bad t]"
proof -
  from assms(2,3) have "status_of S' t \<noteq> status_of S t" by simp
  with assms(1) obtain p k where k: "Call t p \<in> set evs" "k < length (lifetime E t p)"
      "status_of S t = status_at (lifetime E t p) k"
      "status_of S' t = status_at (lifetime E t p) (Suc k)"
    unfolding status_moved_def by blast
  from k(2) lifetime_cases [of E t p] have k3: "k = 0 \<or> k = 1 \<or> k = 2" by auto
  have "lifetime E t p = [(t, None), m_bad t]"
  proof (rule ccontr)
    assume n: "lifetime E t p \<noteq> [(t, None), m_bad t]"
    with lifetime_cases [of E t p] obtain m
      where L: "lifetime E t p = [(t, None), m_run t, m]" by blast
    from k3 k(3,4) assms(2,3) show False
      unfolding L by (auto simp: status_at_def m_run_def)
  qed
  with k(1) show ?thesis by blast
qed

lemma lifetime_rejected:
  assumes "lifetime E t p = [(t, None), m_bad t]"
  shows "map_of (analyze_file_answer E t p) ''status'' = Some (PStr ''failed'')"
    and "filter is_start (snd (analyze_file_thread E t p)) = []"
proof -
  have r: "(opt_truthy (p_csv p) \<and> opt_truthy (p_txt p))
           \<or> (\<not> opt_truthy (p_csv p) \<and> \<not> opt_truthy (p_txt p))
           \<or> \<not> path_exists E (or_path (p_csv p) (p_txt p))"
  proof (rule ccontr)
    assume "\<not> ?thesis"
    then have "lifetime E t p = (t, None) # fut0 (priv_analyze_file_worker E t p)"
      by (cases "opt_truthy (p_csv p)"; cases "opt_truthy (p_txt p)";
          simp add: lifetime_def analyze_file_thread_def analyze_file_cases)
    with worker_marks [of E t p] have "length (lifetime E t p) = 3" by auto
    with assms show False by simp
  qed
  then show "map_of (analyze_file_answer E t p) ''status'' = Some (PStr ''failed'')"
    by (auto simp: analyze_file_answer_def analyze_file_cases)
  from r show "filter is_start (snd (analyze_file_thread E t p)) = []"
    by (auto simp: analyze_file_thread_def analyze_file_cases)
qed

lemma call_ids_append [simp]: "call_ids (xs @ ys) = call_ids xs @ call_ids ys"
  by (simp add: call_ids_def)

lemma prefix_events:
  assumes "list_all server_event evs" and "distinct (call_ids evs)"
  shows "list_all server_event (take n evs)" and "distinct (call_ids (take n evs))"
proof -
  have e: "evs = take n evs @ drop n evs" by simp
  from assms(1) show "list_all server_event (take n evs)"
    by (auto simp: list_all_iff dest: in_set_takeD)
  from assms(2) have "distinct (call_ids (take n evs) @ call_ids (drop n evs))"
    by (subst (asm) e) (simp only: call_ids_append)
  then show "distinct (call_ids (take n evs))" by simp
qed

lemma exec_step_moved:
  assumes "list_all server_event evs" and "distinct (call_ids evs)" and "n < length evs"
  shows "status_moved E (take (Suc n) evs) (exec E (take n evs) (init_server getenv))
           (exec E (take (Suc n) evs) (init_server getenv))"
proof -
  have t: "take (Suc n) evs = take n evs @ [evs ! n]"
    by (rule take_Suc_conv_app_nth [OF assms(3)])
  from prefix_events [OF assms(1,2), of "Suc n"]
  have "list_all server_event (take n evs @ [evs ! n])"
    and "distinct (call_ids (take n evs @ [evs ! n]))" by (simp_all only: t)
  from exec_moved [OF this, of E getenv] show ?thesis by (simp only: t)
qed

lemma exec_Cons: "exec E (ev # evs) S = exec E evs (step E ev S)"
  by (simp add: exec_def)

lemma history_snoc:
  "status_history E (evs @ [ev]) S t =
     status_history E evs S t @ [status_of (exec E (evs @ [ev]) S) t]"
proof (induction evs arbitrary: S)
  case Nil
  show ?case by (simp add: exec_def)
next
  case (Cons e evs)
  from Cons [of "step E e S"] show ?case by (simp add: exec_Cons)
qed

lemma history_last:
  "status_history E evs S t \<noteq> []"
  "last (status_history E evs S t) = status_of (exec E evs S) t"
proof -
  show "status_history E evs S t \<noteq> []" by (cases evs) simp_all
  show "last (status_history E evs S t) = status_of (exec E evs S) t"
  proof (induction evs rule: rev_induct)
    case Nil
    show ?case by (simp add: exec_def)
  next
    case (snoc ev evs)
    show ?case by (simp add: history_snoc)
  qed
qed

lemma history_nth:
  "n \<le> length evs \<Longrightarrow>
   status_history E evs S t ! n = status_of (exec E (take n evs) S) t"
proof (induction evs arbitrary: S n)
  case Nil
  then show ?case by (simp add: exec_def)
next
  case (Cons e evs)
  show ?case
  proof (cases n)
    case 0
    then show ?thesis by (simp add: exec_def)
  next
    case (Suc m)
    with Cons.prems have "m \<le> length evs" by simp
    from Cons.IH [OF this, of "step E e S"] Suc show ?thesis by (simp add: exec_Cons)
  qed
qed

lemma remdups_adj_snoc:
  assumes "xs \<noteq> []"
  shows "remdups_adj (xs @ [y]) = remdups_adj xs @ (if last xs = y then [] else [y])"
proof -
  from assms have x: "butlast xs @ [last xs] = xs" by (rule append_butlast_last_id)
  have "remdups_adj (xs @ [y]) = remdups_adj ((butlast xs @ [last xs]) @ [y])"
    by (simp only: x)
  also have "\<dots> = remdups_adj (butlast xs @ [last xs, y])" by simp
  also have "\<dots> = remdups_adj (butlast xs @ [last xs]) @ (if last xs = y then [] else [y])"
    by (rule remdups_adj_append_two)
  finally show ?thesis by (simp only: x)
qed

lemma transition_simps:
  "transition None b = (b = Some (PStr ''queued''))"
  "transition (Some (PStr ''queued'')) b =
     (b = Some (PStr ''running'') \<or> b = Some (PStr ''failed''))"
  "transition (Some (PStr ''running'')) b =
     (b = Some (PStr ''succeeded'') \<or> b = Some (PStr ''failed''))"
  "transition (Some (PStr ''succeeded'')) b = False"
  "transition (Some (PStr ''failed'')) b = False"
  by (simp_all add: transition_def disj_commute)

lemma path_step:
  assumes "P \<in> set status_paths" and "last P = a" and "transition a b"
  shows "P @ [b] \<in> set status_paths"
proof -
  from assms(1) consider
      "P = [None]"
    | "P = [None, Some (PStr ''queued'')]"
    | "P = [None, Some (PStr ''queued''), Some (PStr ''running'')]"
    | "P = [None, Some (PStr ''queued''), Some (PStr ''running''), Some (PStr ''succeeded'')]"
    | "P = [None, Some (PStr ''queued''), Some (PStr ''running''), Some (PStr ''failed'')]"
    | "P = [None, Some (PStr ''queued''), Some (PStr ''failed'')]"
    unfolding status_paths_def by (simp only: set_simps insert_iff empty_iff) blast
  then show ?thesis
  proof cases
    case 1
    with assms(2) have a: "a = None" by simp
    from assms(3) have "b = Some (PStr ''queued'')" unfolding a transition_simps .
    with 1 show ?thesis by (simp add: status_paths_def)
  next
    case 2
    with assms(2) have a: "a = Some (PStr ''queued'')" by simp
    from assms(3) have "b = Some (PStr ''running'') \<or> b = Some (PStr ''failed'')"
      unfolding a transition_simps .
    with 2 show ?thesis by (auto simp: status_paths_def)
  next
    case 3
    with assms(2) have a: "a = Some (PStr ''running'')" by simp
    from assms(3) have "b = Some (PStr ''succeeded'') \<or> b = Some (PStr ''failed'')"
      unfolding a transition_simps .
    with 3 show ?thesis by (auto simp: status_paths_def)
  next
    case 4
    with assms(2) have a: "a = Some (PStr ''succeeded'')" by simp
    from assms(3) show ?thesis unfolding a transition_simps by simp
  next
    case 5
    with assms(2) have a: "a = Some (PStr ''failed'')" by simp
    from assms(3) show ?thesis unfolding a transition_simps by simp
  next
    case 6
    with assms(2) have a: "a = Some (PStr ''failed'')" by simp
    from assms(3) show ?thesis unfolding a transition_simps by simp
  qed
qed

lemma status_path:
  "list_all server_event evs \<Longrightarrow> distinct (call_ids evs) \<Longrightarrow>
   remdups_adj (status_history E evs (init_server getenv) t) \<in> set status_paths"
proof (induction evs rule: rev_induct)
  case Nil
  show ?case
    by (simp add: init_server_def status_of_alt status_paths_def)
next
  case (snoc ev evs)
  let ?a = "status_of (exec E evs (init_server getenv)) t"
  let ?b = "status_of (exec E (evs @ [ev]) (init_server getenv)) t"
  from snoc.prems have c: "list_all server_event evs" and d: "distinct (call_ids evs)" by simp_all
  note IH = snoc.IH [OF c d]
  from moved_transition [OF exec_moved [OF snoc.prems], where t = t]
  have tr: "?b = ?a \<or> transition ?a ?b" .
  have r: "remdups_adj (status_history E (evs @ [ev]) (init_server getenv) t) =
             remdups_adj (status_history E evs (init_server getenv) t) @ (if ?a = ?b then [] else [?b])"
    unfolding history_snoc
    by (simp only: remdups_adj_snoc [OF history_last(1)] history_last(2))
  show ?case
  proof (cases "?a = ?b")
    case True
    with r IH show ?thesis by simp
  next
    case False
    with tr have "transition ?a ?b" by auto
    from path_step [OF IH _ this] have
      "remdups_adj (status_history E evs (init_server getenv) t) @ [?b] \<in> set status_paths"
      by (simp add: history_last)
    with r False show ?thesis by simp
  qed
qed

text \<open>
  Claim C2. Take any run of the server's own events (requests to \<open>adf_analyze_file\<close>
  with task ids that differ, threads doing their operations in any interleaving,
  \<open>get_task\<close>, \<open>list_tasks\<close>, the passing of time) from the initial state, and any task
  id. The statuses the task goes through, repetitions dropped, are one of
  \<open>status_paths\<close>: nothing, then \<open>queued\<close>, then \<open>running\<close>, then \<open>succeeded\<close> or
  \<open>failed\<close>, or a beginning of that, or nothing, \<open>queued\<close>, \<open>failed\<close>. At every event the
  status stays or makes one of the changes of \<open>transition\<close>: a record appears with
  \<open>queued\<close>, \<open>queued\<close> becomes \<open>running\<close>, \<open>running\<close> becomes \<open>succeeded\<close> or \<open>failed\<close>,
  \<open>queued\<close> becomes \<open>failed\<close>. When \<open>queued\<close> becomes \<open>failed\<close>, the request for the task
  was answered \<open>failed\<close> by \<open>adf_analyze_file\<close> itself and started no worker. A status
  \<open>succeeded\<close> or \<open>failed\<close> is not changed by any event.
\<close>

theorem task_status_lifecycle:
  assumes "list_all server_event evs" and "distinct (call_ids evs)"
  shows "remdups_adj (status_history E evs (init_server getenv) task_id) \<in> set status_paths
       \<and> (\<forall>n < length evs.
            (status_history E evs (init_server getenv) task_id ! Suc n =
               status_history E evs (init_server getenv) task_id ! n
             \<or> transition (status_history E evs (init_server getenv) task_id ! n)
                  (status_history E evs (init_server getenv) task_id ! Suc n))
          \<and> (status_history E evs (init_server getenv) task_id ! n = Some (PStr ''queued'')
              \<and> status_history E evs (init_server getenv) task_id ! Suc n = Some (PStr ''failed'')
              \<longrightarrow> (\<exists>p. Call task_id p \<in> set (take (Suc n) evs)
                     \<and> map_of (analyze_file_answer E task_id p) ''status'' =
                         Some (PStr ''failed'')
                     \<and> filter is_start (snd (analyze_file_thread E task_id p)) = []))
          \<and> (status_history E evs (init_server getenv) task_id ! n = Some (PStr ''succeeded'')
              \<or> status_history E evs (init_server getenv) task_id ! n = Some (PStr ''failed'')
              \<longrightarrow> status_history E evs (init_server getenv) task_id ! Suc n =
                    status_history E evs (init_server getenv) task_id ! n))"
proof (intro conjI allI impI)
  show "remdups_adj (status_history E evs (init_server getenv) task_id) \<in> set status_paths"
    by (rule status_path [OF assms])
next
  fix n assume n: "n < length evs"
  let ?a = "status_history E evs (init_server getenv) task_id ! n"
  let ?b = "status_history E evs (init_server getenv) task_id ! Suc n"
  let ?S = "exec E (take n evs) (init_server getenv)"
  let ?S' = "exec E (take (Suc n) evs) (init_server getenv)"
  from n have a: "?a = status_of ?S task_id" and b: "?b = status_of ?S' task_id"
    by (simp_all only: history_nth Suc_leI less_imp_le)
  note mv = exec_step_moved [OF assms n, of E getenv]
  from moved_transition [OF mv, where t = task_id]
  show tr: "?b = ?a \<or> transition ?a ?b" unfolding a b .
  {
    assume q: "?a = Some (PStr ''queued'') \<and> ?b = Some (PStr ''failed'')"
    from moved_rejected [OF mv, of task_id] q
    obtain p where p: "Call task_id p \<in> set (take (Suc n) evs)"
      "lifetime E task_id p = [(task_id, None), m_bad task_id]"
      unfolding a b by blast
    from p(1) lifetime_rejected [OF p(2)]
    show "\<exists>p. Call task_id p \<in> set (take (Suc n) evs)
             \<and> map_of (analyze_file_answer E task_id p) ''status'' = Some (PStr ''failed'')
             \<and> filter is_start (snd (analyze_file_thread E task_id p)) = []"
      by blast
  }
  {
    assume "?a = Some (PStr ''succeeded'') \<or> ?a = Some (PStr ''failed'')"
    then show "?b = ?a"
    proof
      assume s: "?a = Some (PStr ''succeeded'')"
      from tr show ?thesis unfolding s transition_simps by simp
    next
      assume s: "?a = Some (PStr ''failed'')"
      from tr show ?thesis unfolding s transition_simps by simp
    qed
  }
qed

text \<open>
  In the run \<open>lifecycle_demo\<close> job \<open>B\<close> goes from \<open>queued\<close> over \<open>running\<close> to
  \<open>succeeded\<close>, and job \<open>C\<close> from \<open>queued\<close> to \<open>failed\<close> at the sixth event, an operation
  of the thread that serves its request.
\<close>

theorem task_status_lifecycle_witness:
  "list_all server_event lifecycle_demo \<and> distinct (call_ids lifecycle_demo)
   \<and> remdups_adj (status_history demo_env lifecycle_demo (init_server None) ''B'') =
       [None, Some (PStr ''queued''), Some (PStr ''running''), Some (PStr ''succeeded'')]
   \<and> remdups_adj (status_history demo_env lifecycle_demo (init_server None) ''B'')
       \<in> set status_paths
   \<and> remdups_adj (status_history demo_env lifecycle_demo (init_server None) ''C'') =
       [None, Some (PStr ''queued''), Some (PStr ''failed'')]
   \<and> status_history demo_env lifecycle_demo (init_server None) ''C'' ! 5 =
       Some (PStr ''queued'')
   \<and> status_history demo_env lifecycle_demo (init_server None) ''C'' ! Suc 5 =
       Some (PStr ''failed'')
   \<and> (\<exists>p. Call ''C'' p \<in> set (take (Suc 5) lifecycle_demo)
          \<and> map_of (analyze_file_answer demo_env ''C'' p) ''status'' = Some (PStr ''failed'')
          \<and> filter is_start (snd (analyze_file_thread demo_env ''C'' p)) = [])"
proof -
  have h1: "list_all server_event lifecycle_demo" by (simp add: lifecycle_demo_def)
  have h2: "distinct (call_ids lifecycle_demo)"
    by (simp add: lifecycle_demo_def call_ids_def)
  have l: "5 < length lifecycle_demo" by (simp add: lifecycle_demo_def)
  have hB: "status_history demo_env lifecycle_demo (init_server None) ''B'' =
       replicate 3 None @ replicate 6 (Some (PStr ''queued''))
       @ replicate 7 (Some (PStr ''running'')) @ replicate 2 (Some (PStr ''succeeded''))"
    by code_simp
  have hC: "status_history demo_env lifecycle_demo (init_server None) ''C'' =
       replicate 5 None @ [Some (PStr ''queued'')] @ replicate 12 (Some (PStr ''failed''))"
    by code_simp
  have vB: "remdups_adj (status_history demo_env lifecycle_demo (init_server None) ''B'') =
       [None, Some (PStr ''queued''), Some (PStr ''running''), Some (PStr ''succeeded'')]"
    unfolding hB by (simp add: numeral_nat)
  have vC: "remdups_adj (status_history demo_env lifecycle_demo (init_server None) ''C'') =
       [None, Some (PStr ''queued''), Some (PStr ''failed'')]"
    unfolding hC by (simp add: numeral_nat)
  have v5: "status_history demo_env lifecycle_demo (init_server None) ''C'' ! 5 =
       Some (PStr ''queued'')"
    unfolding hC by (simp add: numeral_nat)
  have v6: "status_history demo_env lifecycle_demo (init_server None) ''C'' ! Suc 5 =
       Some (PStr ''failed'')"
    unfolding hC by (simp add: numeral_nat)
  note T = task_status_lifecycle [OF h1 h2, where E = demo_env and getenv = None]
  from T [where task_id = "''B''"]
  have m: "remdups_adj (status_history demo_env lifecycle_demo (init_server None) ''B'')
             \<in> set status_paths"
    by (rule conjunct1)
  note s5 = conjunct2 [OF T [where task_id = "''C''"], THEN spec, of 5, THEN mp, OF l]
  note imp = conjunct1 [OF conjunct2 [OF s5]]
  note ex = mp [OF imp conjI [OF v5 v6]]
  show ?thesis by (intro conjI h1 h2 vB m vC v5 v6 ex)
qed

end
